theory Spec2Isabelle
  imports Main "HOL-Library.Word" "HOL-Library.Sublist"
begin

section \<open>mclick: synthetic mouse clicks through a virtual input device\<close>

text \<open>
  A shallow embedding of \<^verbatim>\<open>mclick.c\<close>. The program talks to the operating system
  (the uinput device node, the clocks, the standard streams); every such call is recorded,
  in order, in the trace of an explicit world state, and the answers of the operating
  system (does \<^verbatim>\<open>open\<close> succeed, does the n-th \<^verbatim>\<open>write\<close> of an event fail) are
  read from an environment record. \<^verbatim>\<open>exit\<close> and an uncaught exception end the process:
  they are outcomes that every caller passes on.
\<close>

subsection \<open>Constants\<close>

definition DEFAULT_HOLD_MS :: int where "DEFAULT_HOLD_MS = 120"
definition DEFAULT_CLICK_SPEED_MS :: int where "DEFAULT_CLICK_SPEED_MS = 120"
definition DEFAULT_CLICK_COUNT :: int where "DEFAULT_CLICK_COUNT = 1"

text \<open>From \<^verbatim>\<open>linux/input-event-codes.h\<close>, \<^verbatim>\<open>linux/input.h\<close> and \<^verbatim>\<open>stdlib.h\<close>.\<close>

definition EV_SYN :: "16 word" where "EV_SYN = 0x00"
definition EV_KEY :: "16 word" where "EV_KEY = 0x01"
definition SYN_REPORT :: "16 word" where "SYN_REPORT = 0"
definition BTN_LEFT :: int where "BTN_LEFT = 0x110"
definition BTN_RIGHT :: int where "BTN_RIGHT = 0x111"
definition BUS_USB :: "16 word" where "BUS_USB = 0x03"
definition EXIT_SUCCESS :: int where "EXIT_SUCCESS = 0"
definition EXIT_FAILURE :: int where "EXIT_FAILURE = 1"
definition INT_MAX :: int where "INT_MAX = 2147483647"
definition INT_MIN :: int where "INT_MIN = - 2147483648"

subsection \<open>Data\<close>

text \<open>\<^verbatim>\<open>struct input_event\<close>: the time stamp (of \<^verbatim>\<open>gettimeofday\<close>), type, code, value.\<close>

record input_event =
  ie_time :: int
  ie_type :: "16 word"
  ie_code :: "16 word"
  ie_value :: "32 word"

text \<open>The fields of \<^verbatim>\<open>struct uinput_user_dev\<close> that \<^verbatim>\<open>setup_uinput_device\<close> sets.\<close>

record uinput_user_dev =
  dev_name :: string
  id_bustype :: "16 word"
  id_vendor :: "16 word"
  id_product :: "16 word"
  id_version :: "16 word"

datatype ioctl_req = UI_SET_EVBIT "16 word" | UI_SET_KEYBIT int | UI_DEV_CREATE

text \<open>What the program prints: one constructor for each message of the source.\<close>

datatype msg =
    ErrOpen | HelpSudo | ErrCapabilities | ErrDeviceInfo | ErrCreate
  | ErrSendEvent
  | ErrInvalidDuration string
  | ErrInvalidButton char | HelpButton
  | ErrException
  | DbgEnabled
  | DbgEvent bool "16 word"
  | DbgTimed int int int
  | Usage "string option"

text \<open>
  The calls that leave the process. \<open>Open fd\<close> carries the result of \<^verbatim>\<open>open\<close>; an ioctl
  and a write carry whether they succeeded.
\<close>

datatype action =
    Open int
  | Ioctl int ioctl_req bool
  | WriteDev int uinput_user_dev bool
  | WriteEvent int input_event bool
  | Close int
  | Sleep int
  | Cerr msg
  | Cout msg

datatype exn = InvalidArgument | OutOfRange

text \<open>How the process ends: \<^verbatim>\<open>exit\<close>/\<^verbatim>\<open>return\<close> from main with a status, or
  \<^verbatim>\<open>std::terminate\<close> on an exception that nothing catches.\<close>

datatype outcome = Exited int | Terminated exn

text \<open>
  The world: the trace of actions so far, the monotonic clock and the wall clock (both in
  milliseconds), the number of event writes and of sleeps so far, and the two global
  atomics of the program.
\<close>

record world =
  trace :: "action list"
  clock :: int
  wall :: int
  nwrites :: nat
  nsleeps :: nat
  debug_mode :: bool
  click_speed_ms :: int

text \<open>
  The answers of the operating system. Time is the operating system's too: the program
  reads \<^verbatim>\<open>steady_clock\<close>, and how far that clock has moved between two readings is not
  for the program to say. \<open>lag e n\<close> is what the n-th sleep of the run (counted from 0)
  takes beyond the time asked, in milliseconds, together with the time the program spends
  from there up to its next sleep. \<^verbatim>\<open>sleep_for\<close> never returns early, so a lag is not
  negative. Between two readings of the clock with no sleep between them, the one that
  sets \<^verbatim>\<open>start\<close> and the first test of the timed loop, less than a millisecond is taken to
  pass.
\<close>

record env =
  open_fd :: int
  ioctl_ok :: "ioctl_req \<Rightarrow> bool"
  dev_written :: bool
  write_ok :: "nat \<Rightarrow> bool"
  lag :: "nat \<Rightarrow> nat"

text \<open>The world when the process starts: nothing done yet, the globals at their
  initialisers.\<close>

definition boot :: "int \<Rightarrow> int \<Rightarrow> world" where
  "boot c t = \<lparr>trace = [], clock = c, wall = t, nwrites = 0, nsleeps = 0,
     debug_mode = False, click_speed_ms = DEFAULT_CLICK_SPEED_MS\<rparr>"

definition act :: "action \<Rightarrow> world \<Rightarrow> world" where
  "act a w = w\<lparr>trace := trace w @ [a]\<rparr>"

subsection \<open>Device session\<close>

text \<open>The three capability ioctls, joined by \<^verbatim>\<open>||\<close>: the first failure skips the rest.
  Returns whether one failed.\<close>

definition set_capabilities :: "env \<Rightarrow> int \<Rightarrow> world \<Rightarrow> bool \<times> world" where
  "set_capabilities e fd w =
    (let r1 = UI_SET_EVBIT EV_KEY; w1 = act (Ioctl fd r1 (ioctl_ok e r1)) w in
     if \<not> ioctl_ok e r1 then (True, w1)
     else let r2 = UI_SET_KEYBIT BTN_LEFT; w2 = act (Ioctl fd r2 (ioctl_ok e r2)) w1 in
     if \<not> ioctl_ok e r2 then (True, w2)
     else let r3 = UI_SET_KEYBIT BTN_RIGHT; w3 = act (Ioctl fd r3 (ioctl_ok e r3)) w2 in
     (\<not> ioctl_ok e r3, w3))"

definition virtual_mouse :: uinput_user_dev where
  "virtual_mouse = \<lparr>dev_name = ''virtual-mouse'', id_bustype = BUS_USB,
     id_vendor = 0x1234, id_product = 0x5678, id_version = 1\<rparr>"

definition setup_uinput_device :: "env \<Rightarrow> world \<Rightarrow> (outcome + int) \<times> world" where
  "setup_uinput_device e w =
    (let fd = open_fd e; w0 = act (Open fd) w in
     if fd < 0 then
       (Inl (Exited EXIT_FAILURE), act (Cerr HelpSudo) (act (Cerr ErrOpen) w0))
     else let (failed, w1) = set_capabilities e fd w0 in
     if failed then
       (Inl (Exited EXIT_FAILURE), act (Close fd) (act (Cerr ErrCapabilities) w1))
     else let w2 = act (WriteDev fd virtual_mouse (dev_written e)) w1 in
     if \<not> dev_written e then
       (Inl (Exited EXIT_FAILURE), act (Close fd) (act (Cerr ErrDeviceInfo) w2))
     else let w3 = act (Ioctl fd UI_DEV_CREATE (ioctl_ok e UI_DEV_CREATE)) w2 in
     if \<not> ioctl_ok e UI_DEV_CREATE then
       (Inl (Exited EXIT_FAILURE), act (Close fd) (act (Cerr ErrCreate) w3))
     else (Inr fd, w3))"

subsection \<open>Event emission and sleeping\<close>

text \<open>
  \<^verbatim>\<open>send_input_event\<close>: one \<^verbatim>\<open>write\<close> of one event record. When the write fails the
  function prints the error and returns; it returns nothing, so the caller cannot tell.
\<close>

definition send_input_event ::
  "env \<Rightarrow> int \<Rightarrow> 16 word \<Rightarrow> 16 word \<Rightarrow> 32 word \<Rightarrow> world \<Rightarrow> world" where
  "send_input_event e fd type code val w =
    (let ie = \<lparr>ie_time = wall w, ie_type = type, ie_code = code, ie_value = val\<rparr>;
         ok = write_ok e (nwrites w);
         w1 = (act (WriteEvent fd ie ok) w)\<lparr>nwrites := Suc (nwrites w)\<rparr>
     in if \<not> ok then act (Cerr ErrSendEvent) w1
        else if debug_mode w1 \<and> type = EV_KEY then act (Cout (DbgEvent (val \<noteq> 0) code)) w1
        else w1)"

text \<open>\<^verbatim>\<open>send_event\<close>: the \<^verbatim>\<open>int\<close> button becomes a \<^verbatim>\<open>uint16_t\<close> code, the \<^verbatim>\<open>int\<close>
  action an \<^verbatim>\<open>int32_t\<close> value.\<close>

definition send_event :: "env \<Rightarrow> int \<Rightarrow> int \<Rightarrow> int \<Rightarrow> world \<Rightarrow> world" where
  "send_event e fd button action w =
    send_input_event e fd EV_SYN SYN_REPORT 0
      (send_input_event e fd EV_KEY (word_of_int button) (word_of_int action) w)"

text \<open>\<^verbatim>\<open>sleep_for\<close> of a duration that is not positive returns at once. When the sleep
  returns, both clocks have moved by the time asked and by the lag of this sleep.\<close>

definition sleep_ms :: "env \<Rightarrow> int \<Rightarrow> world \<Rightarrow> world" where
  "sleep_ms e ms w =
    (act (Sleep ms) w)\<lparr>clock := clock w + max 0 ms + int (lag e (nsleeps w)),
                         wall := wall w + max 0 ms + int (lag e (nsleeps w)),
                         nsleeps := Suc (nsleeps w)\<rparr>"

subsection \<open>Reading the command line\<close>

definition isdigit :: "char \<Rightarrow> bool" where
  "isdigit c = (c \<in> set ''0123456789'')"

definition isspace :: "char \<Rightarrow> bool" where
  "isspace c = (c \<in> {CHR '' '', CHR 0x09, CHR 0x0A, CHR 0x0B, CHR 0x0C, CHR 0x0D})"

definition digit_val :: "char \<Rightarrow> int" where
  "digit_val c = int (of_char c) - 48"

definition digits_val :: "string \<Rightarrow> int" where
  "digits_val ds = foldl (\<lambda>acc c. acc * 10 + digit_val c) 0 ds"

text \<open>
  \<^verbatim>\<open>std::stoi\<close> in base 10, as the C++ standard gives it (through \<^verbatim>\<open>strtol\<close>): leading white
  space is skipped, one sign is read, then the longest run of digits; no digit there
  throws \<^verbatim>\<open>invalid_argument\<close>, a value outside \<^verbatim>\<open>int\<close> throws \<^verbatim>\<open>out_of_range\<close>.
  What follows the digits is ignored.
\<close>

definition stoi :: "string \<Rightarrow> exn + int" where
  "stoi s =
    (let s1 = dropWhile isspace s;
         neg = (case s1 of [] \<Rightarrow> False | c # _ \<Rightarrow> c = CHR ''-'');
         s2 = (case s1 of [] \<Rightarrow> [] | c # r \<Rightarrow> if c = CHR ''-'' \<or> c = CHR ''+'' then r else s1);
         ds = takeWhile isdigit s2;
         v = (if neg then - digits_val ds else digits_val ds)
     in if ds = [] then Inl InvalidArgument
        else if v < INT_MIN \<or> INT_MAX < v then Inl OutOfRange
        else Inr v)"

text \<open>\<^verbatim>\<open>s.find_first_not_of(cs)\<close>; \<^verbatim>\<open>npos\<close> is \<open>None\<close>.\<close>

fun find_first_not_of :: "string \<Rightarrow> string \<Rightarrow> nat option" where
  "find_first_not_of [] cs = None"
| "find_first_not_of (c # s) cs =
    (if c \<notin> set cs then Some 0 else map_option Suc (find_first_not_of s cs))"

text \<open>\<^verbatim>\<open>int\<close> multiplication: signed overflow is undefined in C++; the model takes the
  two's complement result, which is what the usual targets compute.\<close>

definition wrap32 :: "int \<Rightarrow> int" where
  "wrap32 x = (x + 2147483648) mod 4294967296 - 2147483648"

text \<open>\<^verbatim>\<open>parse_duration\<close>: every exception of the \<^verbatim>\<open>try\<close> block is caught, reported, and
  the process exits.\<close>

definition parse_duration :: "string \<Rightarrow> world \<Rightarrow> (outcome + int) \<times> world" where
  "parse_duration s w =
    (let suffix_pos = find_first_not_of s ''0123456789'';
         fail = (Inl (Exited EXIT_FAILURE), act (Cerr (ErrInvalidDuration s)) w)
     in case stoi s of
          Inl x \<Rightarrow> fail
        | Inr v \<Rightarrow>
            if v \<le> 0 then fail
            else (case suffix_pos of
                    None \<Rightarrow> (Inr v, w)
                  | Some p \<Rightarrow> if s ! p = CHR ''s'' then (Inr (wrap32 (v * 1000)), w)
                              else (Inr v, w)))"

text \<open>\<^verbatim>\<open>get_count\<close>: the loop over \<^verbatim>\<open>argv[0..argc)\<close>. \<^verbatim>\<open>arg[0]\<close> of an empty string is the
  terminating NUL, not a digit. Nothing catches what \<^verbatim>\<open>stoi\<close> throws here.\<close>

fun get_count :: "string list \<Rightarrow> exn + int" where
  "get_count [] = Inr DEFAULT_CLICK_COUNT"
| "get_count (arg # rest) =
    (if (case arg of [] \<Rightarrow> False | c # _ \<Rightarrow> isdigit c) then stoi arg else get_count rest)"

text \<open>\<^verbatim>\<open>get_duration\<close>: the first \<^verbatim>\<open>argv[i]\<close> equal to the option that has a successor.\<close>

fun get_duration :: "string list \<Rightarrow> string \<Rightarrow> world \<Rightarrow> (outcome + int) \<times> world" where
  "get_duration (a # b # rest) option w =
    (if option = a then parse_duration b w else get_duration (b # rest) option w)"
| "get_duration _ option w = (Inr 0, w)"

subsection \<open>The click driver\<close>

function perform_clicks_loop ::
  "env \<Rightarrow> int \<Rightarrow> int \<Rightarrow> int \<Rightarrow> int \<Rightarrow> int \<Rightarrow> int \<Rightarrow> world \<Rightarrow> world" where
  "perform_clicks_loop e fd button count hold_ms click_speed i w =
    (if i < count then
       let w1 = send_event e fd button 1 w;
           w2 = sleep_ms e hold_ms w1;
           w3 = send_event e fd button 0 w2;
           w4 = (if i < count - 1 then sleep_ms e click_speed w3 else w3)
       in perform_clicks_loop e fd button count hold_ms click_speed (i + 1) w4
     else w)"
  by pat_completeness auto
termination
  by (relation "measure (\<lambda>(e, fd, button, count, hold_ms, click_speed, i, w). nat (count - i))")
    auto

declare perform_clicks_loop.simps [simp del]

definition perform_clicks :: "env \<Rightarrow> int \<Rightarrow> int \<Rightarrow> int \<Rightarrow> int \<Rightarrow> int \<Rightarrow> world \<Rightarrow> world" where
  "perform_clicks e fd button count hold_ms click_speed w =
    perform_clicks_loop e fd button count hold_ms click_speed 0 w"

text \<open>One pass through the body of the timed loop.\<close>

definition timed_cycle :: "env \<Rightarrow> int \<Rightarrow> int \<Rightarrow> int \<Rightarrow> int \<Rightarrow> world \<Rightarrow> world" where
  "timed_cycle e fd button hold_ms click_speed w =
    sleep_ms e click_speed (send_event e fd button 0 (sleep_ms e hold_ms (send_event e fd button 1 w)))"

text \<open>The \<^verbatim>\<open>while\<close> loop of \<^verbatim>\<open>perform_timed_clicks\<close>. Its test reads the steady clock, which
  each sleep has moved by the time asked and by its lag. Nothing bounds the number of its
  passes, so it is a partial function: \<open>None\<close> is a run that never leaves the loop.\<close>

partial_function (option) perform_timed_clicks_loop ::
  "env \<Rightarrow> int \<Rightarrow> int \<Rightarrow> int \<Rightarrow> int \<Rightarrow> int \<Rightarrow> int \<Rightarrow> world \<Rightarrow> world option" where
  "perform_timed_clicks_loop e fd button start duration_ms hold_ms click_speed w =
    (if clock w - start < duration_ms then
       perform_timed_clicks_loop e fd button start duration_ms hold_ms click_speed
         (timed_cycle e fd button hold_ms click_speed w)
     else Some w)"

declare perform_timed_clicks_loop.simps [code]

definition perform_timed_clicks ::
  "env \<Rightarrow> int \<Rightarrow> int \<Rightarrow> int \<Rightarrow> int \<Rightarrow> int \<Rightarrow> world \<Rightarrow> world option" where
  "perform_timed_clicks e fd button duration_ms hold_ms click_speed w =
    (let w1 = (if debug_mode w then act (Cout (DbgTimed duration_ms hold_ms click_speed)) w
               else w);
         start = clock w1
     in perform_timed_clicks_loop e fd button start duration_ms hold_ms click_speed w1)"

subsection \<open>main\<close>

definition print_help :: "string option \<Rightarrow> world \<Rightarrow> world" where
  "print_help program_name w = act (Cout (Usage program_name)) w"

definition BUTTONS :: "char \<rightharpoonup> int" where
  "BUTTONS = [CHR ''l'' \<mapsto> BTN_LEFT, CHR ''r'' \<mapsto> BTN_RIGHT]"

text \<open>The option loop of \<^verbatim>\<open>main\<close>, from index \<open>i\<close>, with the locals \<^verbatim>\<open>hold_ms\<close> and
  \<^verbatim>\<open>duration_ms\<close>. An option that takes a value and is the last argument matches no
  branch.\<close>

function main_loop ::
  "string list \<Rightarrow> nat \<Rightarrow> int \<Rightarrow> int \<Rightarrow> world \<Rightarrow> (outcome + int \<times> int) \<times> world" where
  "main_loop argv i hold_ms duration_ms w =
    (if i < length argv then
       let arg = argv ! i in
       if arg = ''-d'' \<or> arg = ''--debug'' then
         main_loop argv (i + 1) hold_ms duration_ms (act (Cout DbgEnabled) (w\<lparr>debug_mode := True\<rparr>))
       else if (arg = ''-h'' \<or> arg = ''--hold'') \<and> i + 1 < length argv then
         (let r = parse_duration (argv ! (i + 1)) w in
          case fst r of
            Inl out \<Rightarrow> (Inl out, snd r)
          | Inr v \<Rightarrow> main_loop argv (i + 2) v duration_ms (snd r))
       else if (arg = ''-cs'' \<or> arg = ''--clickspeed'') \<and> i + 1 < length argv then
         (let r = parse_duration (argv ! (i + 1)) w in
          case fst r of
            Inl out \<Rightarrow> (Inl out, snd r)
          | Inr v \<Rightarrow> main_loop argv (i + 2) hold_ms duration_ms ((snd r)\<lparr>click_speed_ms := v\<rparr>))
       else if (arg = ''-t'' \<or> arg = ''--time'') \<and> i + 1 < length argv then
         (let r = get_duration argv arg w in
          case fst r of
            Inl out \<Rightarrow> (Inl out, snd r)
          | Inr v \<Rightarrow> main_loop argv (i + 1) hold_ms v (snd r))
       else main_loop argv (i + 1) hold_ms duration_ms w
     else (Inr (hold_ms, duration_ms), w))"
  by pat_completeness auto
termination
  by (relation "measure (\<lambda>(argv, i, hold_ms, duration_ms, w). length argv - i)") auto

declare main_loop.simps [simp del]

text \<open>
  \<^verbatim>\<open>main\<close>. With \<^verbatim>\<open>argc = 0\<close> the program name is a null pointer (\<open>None\<close>). The
  \<^verbatim>\<open>catch\<close> around the driver is not modelled: nothing in the driver throws.
\<close>

definition main :: "env \<Rightarrow> string list \<Rightarrow> world \<Rightarrow> (outcome \<times> world) option" where
  "main e argv w =
    (if length argv < 2 \<or> argv ! 1 = ''-h'' \<or> argv ! 1 = ''--help'' then
       Some (Exited EXIT_FAILURE, print_help (case argv of [] \<Rightarrow> None | p # _ \<Rightarrow> Some p) w)
     else
       let button_char = (case argv ! 1 of [] \<Rightarrow> CHR 0x00 | c # _ \<Rightarrow> c) in
       case BUTTONS button_char of
         None \<Rightarrow>
           Some (Exited EXIT_FAILURE,
                 act (Cerr HelpButton) (act (Cerr (ErrInvalidButton button_char)) w))
       | Some button \<Rightarrow>
          (case get_count argv of
             Inl x \<Rightarrow> Some (Terminated x, w)
           | Inr count \<Rightarrow>
              (case main_loop argv 2 DEFAULT_HOLD_MS 0 w of
                 (Inl out, w1) \<Rightarrow> Some (out, w1)
               | (Inr (hold_ms, duration_ms), w1) \<Rightarrow>
                  (case setup_uinput_device e w1 of
                     (Inl out, w2) \<Rightarrow> Some (out, w2)
                   | (Inr fd, w2) \<Rightarrow>
                      (case (if duration_ms > 0 then
                               perform_timed_clicks e fd button duration_ms hold_ms
                                 (click_speed_ms w2) w2
                             else
                               Some (perform_clicks e fd button count hold_ms
                                       (click_speed_ms w2) w2)) of
                         None \<Rightarrow> None
                       | Some w3 \<Rightarrow> Some (Exited EXIT_SUCCESS, act (Close fd) w3))))))"

subsection \<open>Observing a run\<close>

text \<open>What a run added to the trace.\<close>

definition emitted :: "world \<Rightarrow> world \<Rightarrow> action list" where
  "emitted w w' = drop (length (trace w)) (trace w')"

text \<open>The event records handed to \<^verbatim>\<open>write\<close>, in order, each with the result of the
  write.\<close>

fun written :: "action \<Rightarrow> (input_event \<times> bool) list" where
  "written (WriteEvent fd ie ok) = [(ie, ok)]"
| "written _ = []"

definition writes :: "action list \<Rightarrow> (input_event \<times> bool) list" where
  "writes tr = concat (map written tr)"

text \<open>
  The shape of a run: the event writes and the sleeps, without time stamps, file
  descriptors and results. A key event is a press when its value is not 0, as in the debug
  output of \<^verbatim>\<open>send_input_event\<close>.
\<close>

datatype step = Press "16 word" | Release "16 word" | Sync | Pause int

fun step_of :: "action \<Rightarrow> step list" where
  "step_of (WriteEvent fd ie ok) =
    (if ie_type ie = EV_KEY then
       [if ie_value ie \<noteq> 0 then Press (ie_code ie) else Release (ie_code ie)]
     else if ie_type ie = EV_SYN then [Sync]
     else [])"
| "step_of (Sleep ms) = [Pause ms]"
| "step_of _ = []"

definition steps :: "action list \<Rightarrow> step list" where
  "steps tr = concat (map step_of tr)"

fun is_press :: "step \<Rightarrow> bool" where
  "is_press (Press c) = True"
| "is_press _ = False"

fun is_release :: "step \<Rightarrow> bool" where
  "is_release (Release c) = True"
| "is_release _ = False"

fun is_key :: "step \<Rightarrow> bool" where
  "is_key (Press c) = True"
| "is_key (Release c) = True"
| "is_key _ = False"

fun pause_of :: "step \<Rightarrow> int" where
  "pause_of (Pause ms) = ms"
| "pause_of _ = 0"

text \<open>The time asked of \<^verbatim>\<open>sleep_ms\<close> in all.\<close>

definition slept :: "step list \<Rightarrow> int" where
  "slept st = sum_list (map pause_of st)"

text \<open>One click: press, report, hold, release, report.\<close>

definition click_steps :: "16 word \<Rightarrow> int \<Rightarrow> step list" where
  "click_steps c hold_ms = [Press c, Sync, Pause hold_ms, Release c, Sync]"

text \<open>The time one pass of the timed loop asks its two sleeps for.\<close>

definition cycle_time :: "int \<Rightarrow> int \<Rightarrow> int" where
  "cycle_time hold_ms click_speed = max 0 hold_ms + max 0 click_speed"

text \<open>The lags of \<open>m\<close> sleeps in a row, from the n-th on.\<close>

fun lag_sum :: "env \<Rightarrow> nat \<Rightarrow> nat \<Rightarrow> nat" where
  "lag_sum e n 0 = 0"
| "lag_sum e n (Suc m) = lag_sum e n m + lag e (n + m)"

text \<open>A clock on which every sleep takes the time asked and nothing else takes time.\<close>

definition exact_clock :: "env \<Rightarrow> bool" where
  "exact_clock e \<longleftrightarrow> (\<forall>n. lag e n = 0)"

text \<open>No write of an event failed.\<close>

fun write_succeeded :: "action \<Rightarrow> bool" where
  "write_succeeded (WriteEvent fd ie ok) = ok"
| "write_succeeded _ = True"

text \<open>The device calls: everything but sleeping and printing.\<close>

fun is_device_action :: "action \<Rightarrow> bool" where
  "is_device_action (Sleep ms) = False"
| "is_device_action (Cerr m) = False"
| "is_device_action (Cout m) = False"
| "is_device_action _ = True"

text \<open>The actions of the three phases of \<^verbatim>\<open>main\<close>: reading the options, setting the
  device up, driving it.\<close>

fun is_parse_action :: "action \<Rightarrow> bool" where
  "is_parse_action (Cout DbgEnabled) = True"
| "is_parse_action (Cerr (ErrInvalidDuration s)) = True"
| "is_parse_action _ = False"

fun is_setup_action :: "action \<Rightarrow> bool" where
  "is_setup_action (Open fd) = True"
| "is_setup_action (Ioctl fd r ok) = True"
| "is_setup_action (WriteDev fd dev ok) = True"
| "is_setup_action (Close fd) = True"
| "is_setup_action (Cerr ErrOpen) = True"
| "is_setup_action (Cerr HelpSudo) = True"
| "is_setup_action (Cerr ErrCapabilities) = True"
| "is_setup_action (Cerr ErrDeviceInfo) = True"
| "is_setup_action (Cerr ErrCreate) = True"
| "is_setup_action _ = False"

fun is_driver_action :: "action \<Rightarrow> bool" where
  "is_driver_action (WriteEvent fd ie ok) = True"
| "is_driver_action (Sleep ms) = True"
| "is_driver_action (Cerr ErrSendEvent) = True"
| "is_driver_action (Cout (DbgEvent b c)) = True"
| "is_driver_action (Cout (DbgTimed d h s)) = True"
| "is_driver_action _ = False"

fun is_usage :: "action \<Rightarrow> bool" where
  "is_usage (Cout (Usage p)) = True"
| "is_usage _ = False"

fun is_diagnostic :: "action \<Rightarrow> bool" where
  "is_diagnostic (Cerr m) = True"
| "is_diagnostic _ = False"

text \<open>A duration that \<^verbatim>\<open>parse_duration\<close> does not take: \<^verbatim>\<open>stoi\<close> throws, or the value
  is not positive.\<close>

definition bad_duration :: "string \<Rightarrow> bool" where
  "bad_duration s = (case stoi s of Inl x \<Rightarrow> True | Inr v \<Rightarrow> v \<le> 0)"

text \<open>The command line has \<^verbatim>\<open>-t\<close> or \<^verbatim>\<open>--time\<close> where the option loop can take it as
  the time option: from \<^verbatim>\<open>argv[2]\<close> on and not as the last argument.\<close>

definition timed_option :: "string list \<Rightarrow> bool" where
  "timed_option argv = list_ex (\<lambda>a. a = ''-t'' \<or> a = ''--time'') (butlast (drop 2 argv))"

text \<open>Every step of the device set-up succeeds.\<close>

definition device_ok :: "env \<Rightarrow> bool" where
  "device_ok e \<longleftrightarrow>
    0 \<le> open_fd e \<and> ioctl_ok e (UI_SET_EVBIT EV_KEY) \<and> ioctl_ok e (UI_SET_KEYBIT BTN_LEFT) \<and>
    ioctl_ok e (UI_SET_KEYBIT BTN_RIGHT) \<and> dev_written e \<and> ioctl_ok e UI_DEV_CREATE"

text \<open>What is compared between two runs of \<^verbatim>\<open>main\<close>: how the run ends, and the steps of
  its trace, that is the event writes and sleeps without time stamps.\<close>

definition shape :: "(outcome \<times> world) option \<Rightarrow> (outcome \<times> step list) option" where
  "shape r = map_option (\<lambda>(out, w). (out, steps (trace w))) r"

text \<open>An operating system where every call succeeds and the clock is exact; \<^verbatim>\<open>open\<close>
  returns descriptor 3.\<close>

definition ideal_env :: env where
  "ideal_env = \<lparr>open_fd = 3, ioctl_ok = (\<lambda>r. True), dev_written = True, write_ok = (\<lambda>n. True),
     lag = (\<lambda>n. 0)\<rparr>"

text \<open>An operating system where the first write of an event fails, and nothing else.\<close>

definition first_write_fails :: env where
  "first_write_fails = ideal_env\<lparr>write_ok := (\<lambda>n. n \<noteq> 0)\<rparr>"

text \<open>An operating system where \<^verbatim>\<open>open\<close> fails, and one where the device cannot be
  created.\<close>

definition no_device :: env where
  "no_device = ideal_env\<lparr>open_fd := - 1\<rparr>"

definition create_fails :: env where
  "create_fails = ideal_env\<lparr>ioctl_ok := (\<lambda>r. r \<noteq> UI_DEV_CREATE)\<rparr>"

text \<open>An operating system where every sleep takes 30 milliseconds more than asked.\<close>

definition late_env :: env where
  "late_env = ideal_env\<lparr>lag := (\<lambda>n. 30)\<rparr>"

section \<open>Properties\<close>

subsection \<open>Traces and steps\<close>

lemma act_fields [simp]:
  "trace (act a w) = trace w @ [a]" "clock (act a w) = clock w" "wall (act a w) = wall w"
  "nwrites (act a w) = nwrites w" "nsleeps (act a w) = nsleeps w"
  "debug_mode (act a w) = debug_mode w"
  "click_speed_ms (act a w) = click_speed_ms w"
  by (simp_all add: act_def)

lemma steps_append [simp]: "steps (xs @ ys) = steps xs @ steps ys"
  by (simp add: steps_def)

lemma steps_Nil [simp]: "steps [] = []"
  by (simp add: steps_def)

lemma steps_Cons [simp]: "steps (a # tr) = step_of a @ steps tr"
  by (simp add: steps_def)

lemma writes_append [simp]: "writes (xs @ ys) = writes xs @ writes ys"
  by (simp add: writes_def)

lemma writes_Nil [simp]: "writes [] = []"
  by (simp add: writes_def)

lemma writes_Cons [simp]: "writes (a # tr) = written a @ writes tr"
  by (simp add: writes_def)

lemma emitted_append: "trace w' = trace w @ xs \<Longrightarrow> emitted w w' = xs"
  by (simp add: emitted_def)

lemma EV_KEY_neq_EV_SYN [simp]: "EV_KEY \<noteq> EV_SYN" "EV_SYN \<noteq> EV_KEY"
  by (simp_all add: EV_KEY_def EV_SYN_def)

lemma send_input_event_trace:
  "trace (send_input_event e fd ty c v w) =
     trace w @ WriteEvent fd \<lparr>ie_time = wall w, ie_type = ty, ie_code = c, ie_value = v\<rparr>
                 (write_ok e (nwrites w))
       # (if \<not> write_ok e (nwrites w) then [Cerr ErrSendEvent]
          else if debug_mode w \<and> ty = EV_KEY then [Cout (DbgEvent (v \<noteq> 0) c)] else [])"
  by (simp add: send_input_event_def Let_def)

lemma send_input_event_fields [simp]:
  "clock (send_input_event e fd ty c v w) = clock w"
  "wall (send_input_event e fd ty c v w) = wall w"
  "nwrites (send_input_event e fd ty c v w) = Suc (nwrites w)"
  "nsleeps (send_input_event e fd ty c v w) = nsleeps w"
  "debug_mode (send_input_event e fd ty c v w) = debug_mode w"
  "click_speed_ms (send_input_event e fd ty c v w) = click_speed_ms w"
  by (simp_all add: send_input_event_def Let_def)

lemma send_event_trace:
  "trace (send_event e fd button action w) =
     trace w @
     WriteEvent fd \<lparr>ie_time = wall w, ie_type = EV_KEY, ie_code = word_of_int button,
                    ie_value = word_of_int action\<rparr> (write_ok e (nwrites w))
       # (if \<not> write_ok e (nwrites w) then [Cerr ErrSendEvent]
          else if debug_mode w then [Cout (DbgEvent (word_of_int action \<noteq> (0 :: 32 word)) (word_of_int button))]
          else [])
       @ WriteEvent fd \<lparr>ie_time = wall w, ie_type = EV_SYN, ie_code = SYN_REPORT, ie_value = 0\<rparr>
           (write_ok e (Suc (nwrites w)))
       # (if \<not> write_ok e (Suc (nwrites w)) then [Cerr ErrSendEvent] else [])"
  by (simp add: send_event_def send_input_event_trace)

lemma send_event_fields [simp]:
  "clock (send_event e fd button action w) = clock w"
  "wall (send_event e fd button action w) = wall w"
  "nwrites (send_event e fd button action w) = Suc (Suc (nwrites w))"
  "nsleeps (send_event e fd button action w) = nsleeps w"
  "debug_mode (send_event e fd button action w) = debug_mode w"
  "click_speed_ms (send_event e fd button action w) = click_speed_ms w"
  by (simp_all add: send_event_def)

lemma send_event_steps:
  "steps (trace (send_event e fd button action w)) =
     steps (trace w) @
     [if (word_of_int action :: 32 word) \<noteq> 0 then Press (word_of_int button)
      else Release (word_of_int button), Sync]"
  by (simp add: send_event_trace)

lemma sleep_ms_fields [simp]:
  "trace (sleep_ms e ms w) = trace w @ [Sleep ms]"
  "clock (sleep_ms e ms w) = clock w + max 0 ms + int (lag e (nsleeps w))"
  "wall (sleep_ms e ms w) = wall w + max 0 ms + int (lag e (nsleeps w))"
  "nwrites (sleep_ms e ms w) = nwrites w"
  "nsleeps (sleep_ms e ms w) = Suc (nsleeps w)"
  "debug_mode (sleep_ms e ms w) = debug_mode w"
  "click_speed_ms (sleep_ms e ms w) = click_speed_ms w"
  by (simp_all add: sleep_ms_def)

subsection \<open>The bounded loop\<close>

lemma click_body_steps:
  "steps (trace (send_event e fd button 0 (sleep_ms e hold_ms (send_event e fd button 1 w)))) =
     steps (trace w) @ click_steps (word_of_int button) hold_ms"
  by (simp add: send_event_steps click_steps_def)

lemma perform_clicks_loop_steps:
  "steps (trace (perform_clicks_loop e fd button count hold_ms click_speed i w)) =
     steps (trace w) @
     (if i < count then
        concat (replicate (nat (count - i - 1))
                  (click_steps (word_of_int button) hold_ms @ [Pause click_speed]))
        @ click_steps (word_of_int button) hold_ms
      else [])"
proof (induction e fd button count hold_ms click_speed i w rule: perform_clicks_loop.induct)
  case (1 e fd button count hold_ms click_speed i w)
  let ?c = "click_steps (word_of_int button) hold_ms"
  let ?w3 = "send_event e fd button 0 (sleep_ms e hold_ms (send_event e fd button 1 w))"
  let ?w4 = "if i < count - 1 then sleep_ms e click_speed ?w3 else ?w3"
  show ?case
  proof (cases "i < count")
    case False
    then show ?thesis by (subst perform_clicks_loop.simps) simp
  next
    case True
    have unfold: "perform_clicks_loop e fd button count hold_ms click_speed i w =
        perform_clicks_loop e fd button count hold_ms click_speed (i + 1) ?w4"
      using True by (subst perform_clicks_loop.simps) (simp add: Let_def)
    have IH: "steps (trace (perform_clicks_loop e fd button count hold_ms click_speed (i + 1) ?w4)) =
        steps (trace ?w4) @
        (if i + 1 < count then
           concat (replicate (nat (count - (i + 1) - 1)) (?c @ [Pause click_speed])) @ ?c
         else [])"
      using "1.IH"[OF True refl refl refl refl] .
    show ?thesis
    proof (cases "i < count - 1")
      case True
      then have n: "nat (count - i - 1) = Suc (nat (count - (i + 1) - 1))" by simp
      have w4: "steps (trace ?w4) = steps (trace w) @ ?c @ [Pause click_speed]"
        using True by (simp add: click_body_steps)
      from True \<open>i < count\<close> show ?thesis
        unfolding unfold IH w4 n by simp
    next
      case False
      with True have eq: "nat (count - i - 1) = 0" "\<not> i + 1 < count" by simp_all
      have w4: "steps (trace ?w4) = steps (trace w) @ ?c"
        using False by (simp add: click_body_steps)
      from True show ?thesis
        unfolding unfold IH w4 using eq by simp
    qed
  qed
qed

lemma emitted_self [simp]: "emitted w w = []"
  by (simp add: emitted_def)

lemma prefix_emitted: "prefix (trace w) (trace w') \<Longrightarrow> trace w' = trace w @ emitted w w'"
  by (auto simp: emitted_def prefix_def)

lemma emitted_compose:
  "prefix (trace w) (trace w1) \<Longrightarrow> prefix (trace w1) (trace w2) \<Longrightarrow>
   emitted w w2 = emitted w w1 @ emitted w1 w2"
  by (auto simp: emitted_def prefix_def)

lemma steps_emitted:
  "prefix (trace w) (trace w') \<Longrightarrow> steps (trace w') = steps (trace w) @ xs \<Longrightarrow>
   steps (emitted w w') = xs"
  by (auto simp: emitted_def prefix_def)

lemma grows_act [simp]: "prefix (trace w) (trace (act a w))"
  by simp

lemma grows_sleep_ms [simp]: "prefix (trace w) (trace (sleep_ms e ms w))"
  by simp

lemma grows_send_event [simp]: "prefix (trace w) (trace (send_event e fd button action w))"
  by (simp add: send_event_trace)

lemma grows_click_body:
  "prefix (trace w) (trace (send_event e fd button 0 (sleep_ms e hold_ms (send_event e fd button 1 w))))"
  by (rule prefix_order.trans [OF grows_send_event], rule prefix_order.trans [OF grows_sleep_ms],
      rule grows_send_event)

lemma perform_clicks_loop_unfold:
  "i < count \<Longrightarrow>
   perform_clicks_loop e fd button count hold_ms click_speed i w =
   perform_clicks_loop e fd button count hold_ms click_speed (i + 1)
     (if i < count - 1
      then sleep_ms e click_speed
             (send_event e fd button 0 (sleep_ms e hold_ms (send_event e fd button 1 w)))
      else send_event e fd button 0 (sleep_ms e hold_ms (send_event e fd button 1 w)))"
  by (subst perform_clicks_loop.simps) (simp add: Let_def)

lemma perform_clicks_loop_done:
  "\<not> i < count \<Longrightarrow> perform_clicks_loop e fd button count hold_ms click_speed i w = w"
  by (subst perform_clicks_loop.simps) simp

lemma grows_perform_clicks_loop:
  "prefix (trace w) (trace (perform_clicks_loop e fd button count hold_ms click_speed i w))"
proof (induction e fd button count hold_ms click_speed i w rule: perform_clicks_loop.induct)
  case (1 e fd button count hold_ms click_speed i w)
  show ?case
  proof (cases "i < count")
    case False
    then show ?thesis by (simp add: perform_clicks_loop_done)
  next
    case True
    let ?w3 = "send_event e fd button 0 (sleep_ms e hold_ms (send_event e fd button 1 w))"
    let ?w4 = "if i < count - 1 then sleep_ms e click_speed ?w3 else ?w3"
    have "prefix (trace w) (trace ?w4)"
      using grows_click_body [of w e fd button hold_ms]
      by (auto intro: prefix_order.trans)
    moreover have "prefix (trace ?w4)
        (trace (perform_clicks_loop e fd button count hold_ms click_speed (i + 1) ?w4))"
      using "1.IH"[OF True refl refl refl refl] .
    ultimately show ?thesis
      unfolding perform_clicks_loop_unfold [OF True] by (rule prefix_order.trans)
  qed
qed

lemma lag_sum_cons: "lag_sum e n (Suc m) = lag e n + lag_sum e (Suc n) m"
  by (induction m) simp_all


lemma lag_sum_exact: "exact_clock e \<Longrightarrow> lag_sum e n m = 0"
  by (induction m) (simp_all add: exact_clock_def)

lemma lag_sum_cong: "lag e1 = lag e2 \<Longrightarrow> lag_sum e1 n m = lag_sum e2 n m"
  by (induction m) simp_all

lemma perform_clicks_loop_clock:
  "clock (perform_clicks_loop e fd button count hold_ms click_speed i w) =
     clock w +
     (if i < count
      then (count - i) * max 0 hold_ms + (count - i - 1) * max 0 click_speed +
           int (lag_sum e (nsleeps w) (nat (2 * (count - i) - 1)))
      else 0)"
proof (induction e fd button count hold_ms click_speed i w rule: perform_clicks_loop.induct)
  case (1 e fd button count hold_ms click_speed i w)
  show ?case
  proof (cases "i < count")
    case False
    then show ?thesis by (simp add: perform_clicks_loop_done)
  next
    case True
    let ?w3 = "send_event e fd button 0 (sleep_ms e hold_ms (send_event e fd button 1 w))"
    let ?w4 = "if i < count - 1 then sleep_ms e click_speed ?w3 else ?w3"
    have IH: "clock (perform_clicks_loop e fd button count hold_ms click_speed (i + 1) ?w4) =
        clock ?w4 +
        (if i + 1 < count
         then (count - (i + 1)) * max 0 hold_ms + (count - (i + 1) - 1) * max 0 click_speed +
              int (lag_sum e (nsleeps ?w4) (nat (2 * (count - (i + 1)) - 1)))
         else 0)"
      using "1.IH"[OF True refl refl refl refl] .
    show ?thesis
    proof (cases "i + 1 < count")
      case True
      then have w4: "clock ?w4 = clock w + max 0 hold_ms + int (lag e (nsleeps w)) +
          max 0 click_speed + int (lag e (Suc (nsleeps w)))"
        "nsleeps ?w4 = Suc (Suc (nsleeps w))"
        by simp_all
      from True have "nat (2 * (count - i) - 1) = Suc (Suc (nat (2 * (count - (i + 1)) - 1)))"
        by simp
      then have l: "lag_sum e (nsleeps w) (nat (2 * (count - i) - 1)) =
          lag e (nsleeps w) + lag e (Suc (nsleeps w)) +
          lag_sum e (Suc (Suc (nsleeps w))) (nat (2 * (count - (i + 1)) - 1))"
        by (simp only: lag_sum_cons add.assoc)
      from True show ?thesis
        unfolding perform_clicks_loop_unfold [OF \<open>i < count\<close>] IH w4 l
        by (simp add: algebra_simps)
    next
      case False
      with \<open>i < count\<close> have c: "count = i + 1" by simp
      then have w4: "clock ?w4 = clock w + max 0 hold_ms + int (lag e (nsleeps w))"
        by simp
      from c have "nat (2 * (count - i) - 1) = Suc 0" by simp
      then have l: "lag_sum e (nsleeps w) (nat (2 * (count - i) - 1)) = lag e (nsleeps w)"
        by simp
      from c show ?thesis
        unfolding perform_clicks_loop_unfold [OF \<open>i < count\<close>] IH w4 l
        by simp
    qed
  qed
qed

lemma send_event_all_written:
  "write_ok e (nwrites w) \<Longrightarrow> write_ok e (Suc (nwrites w)) \<Longrightarrow>
   list_all write_succeeded (emitted w (send_event e fd button action w))"
  by (simp add: emitted_append [OF send_event_trace])

lemma click_body_all_written:
  assumes "\<forall>n. write_ok e n"
  shows "list_all write_succeeded
    (emitted w (send_event e fd button 0 (sleep_ms e hold_ms (send_event e fd button 1 w))))"
proof -
  let ?w1 = "send_event e fd button 1 w"
  let ?w2 = "sleep_ms e hold_ms ?w1"
  let ?w3 = "send_event e fd button 0 ?w2"
  have g1: "prefix (trace w) (trace ?w1)" by (rule grows_send_event)
  have g2: "prefix (trace ?w1) (trace ?w2)" by (rule grows_sleep_ms)
  have g3: "prefix (trace ?w2) (trace ?w3)" by (rule grows_send_event)
  have "emitted w ?w3 = emitted w ?w1 @ emitted ?w1 ?w2 @ emitted ?w2 ?w3"
    using emitted_compose [OF prefix_order.trans [OF g1 g2] g3] emitted_compose [OF g1 g2]
    by simp
  moreover have "emitted ?w1 ?w2 = [Sleep hold_ms]"
    by (rule emitted_append) simp
  ultimately show ?thesis
    using assms by (simp add: send_event_all_written)
qed

lemma perform_clicks_loop_all_written:
  assumes ok: "\<forall>n. write_ok e n"
  shows "list_all write_succeeded
    (emitted w (perform_clicks_loop e fd button count hold_ms click_speed i w))"
  using ok
proof (induction e fd button count hold_ms click_speed i w rule: perform_clicks_loop.induct)
  case (1 e fd button count hold_ms click_speed i w)
  show ?case
  proof (cases "i < count")
    case False
    then show ?thesis by (simp add: perform_clicks_loop_done)
  next
    case True
    let ?w3 = "send_event e fd button 0 (sleep_ms e hold_ms (send_event e fd button 1 w))"
    let ?w4 = "if i < count - 1 then sleep_ms e click_speed ?w3 else ?w3"
    let ?w5 = "perform_clicks_loop e fd button count hold_ms click_speed (i + 1) ?w4"
    have IH: "list_all write_succeeded (emitted ?w4 ?w5)"
      using "1.IH"[OF True refl refl refl refl "1.prems"] .
    have g3: "prefix (trace w) (trace ?w3)" by (rule grows_click_body)
    have g4: "prefix (trace ?w3) (trace ?w4)" by simp
    have g5: "prefix (trace ?w4) (trace ?w5)" by (rule grows_perform_clicks_loop)
    have "emitted ?w3 ?w4 = (if i < count - 1 then [Sleep click_speed] else [])"
      by (simp add: emitted_append)
    then have e4: "list_all write_succeeded (emitted ?w3 ?w4)" by simp
    have "emitted w ?w5 = emitted w ?w3 @ emitted ?w3 ?w4 @ emitted ?w4 ?w5"
      using emitted_compose [OF prefix_order.trans [OF g3 g4] g5] emitted_compose [OF g3 g4]
      by simp
    then show ?thesis
      unfolding perform_clicks_loop_unfold [OF True]
      using IH e4 click_body_all_written [OF "1.prems", of w fd button hold_ms] by simp
  qed
qed

lemma filter_concat_replicate:
  "filter P (concat (replicate n xs)) = concat (replicate n (filter P xs))"
  by (induction n) simp_all

lemma concat_replicate_snoc: "concat (replicate n xs) @ xs = concat (replicate (Suc n) xs)"
  by (induction n) simp_all

lemma length_concat_replicate: "length (concat (replicate n xs)) = n * length xs"
  by (induction n) simp_all

lemma slept_append [simp]: "slept (xs @ ys) = slept xs + slept ys"
  by (simp add: slept_def)

lemma slept_concat_replicate: "slept (concat (replicate n xs)) = int n * slept xs"
  by (induction n) (simp_all add: slept_def algebra_simps)

lemma slept_click_steps [simp]: "slept (click_steps c hold_ms) = hold_ms"
  by (simp add: slept_def click_steps_def)

text \<open>
  C1. A bounded run with count \<open>N \<ge> 1\<close>, hold \<open>H\<close> and delay \<open>D\<close> hands to the device
  exactly \<open>N\<close> clicks, each a press, a report, the hold, the release and a report, with
  the delay \<open>D\<close> between two clicks only: \<open>N\<close> presses and \<open>N\<close> releases that alternate,
  the release of the last click at the very end, and \<open>N * H + (N - 1) * D\<close> milliseconds
  asked of the sleeps in all. When the durations are not negative the clock moves by this
  time and by the lags of the \<open>2 * N - 1\<close> sleeps, so on an exact clock this is the time
  that passes; and when no write fails every one of these events is written.
\<close>

theorem perform_clicks_exact:
  assumes "1 \<le> N"
  shows "let w' = perform_clicks e fd button N H D w;
             st = steps (emitted w w');
             c = word_of_int button
         in st = concat (replicate (nat (N - 1)) (click_steps c H @ [Pause D])) @ click_steps c H
          \<and> filter is_key st = concat (replicate (nat N) [Press c, Release c])
          \<and> length (filter is_press st) = nat N
          \<and> length (filter is_release st) = nat N
          \<and> drop (length st - 2) st = [Release c, Sync]
          \<and> slept st = N * H + (N - 1) * D
          \<and> (0 \<le> H \<and> 0 \<le> D \<longrightarrow>
               clock w' - clock w =
                 N * H + (N - 1) * D + int (lag_sum e (nsleeps w) (nat (2 * N - 1))))
          \<and> (0 \<le> H \<and> 0 \<le> D \<and> exact_clock e \<longrightarrow> clock w' - clock w = N * H + (N - 1) * D)
          \<and> ((\<forall>n. write_ok e n) \<longrightarrow> list_all write_succeeded (emitted w w'))"
proof -
  let ?w' = "perform_clicks e fd button N H D w"
  let ?c = "word_of_int button :: 16 word"
  let ?st = "concat (replicate (nat (N - 1)) (click_steps ?c H @ [Pause D])) @ click_steps ?c H"
  from assms have n: "0 < N" by simp
  have st: "steps (emitted w ?w') = ?st"
    unfolding perform_clicks_def
    by (rule steps_emitted [OF grows_perform_clicks_loop])
       (simp add: perform_clicks_loop_steps n)
  have N: "Suc (nat (N - 1)) = nat N" "int (nat (N - 1)) = N - 1"
    using assms by simp_all
  have key: "filter is_key ?st = concat (replicate (nat N) [Press ?c, Release ?c])"
  proof -
    have "filter is_key ?st =
        concat (replicate (nat (N - 1)) [Press ?c, Release ?c]) @ [Press ?c, Release ?c]"
      by (simp add: filter_concat_replicate click_steps_def)
    then show ?thesis
      unfolding concat_replicate_snoc N(1) .
  qed
  have press: "length (filter is_press ?st) = nat N"
    using N(1) by (simp add: filter_concat_replicate length_concat_replicate click_steps_def)
  have release: "length (filter is_release ?st) = nat N"
    using N(1) by (simp add: filter_concat_replicate length_concat_replicate click_steps_def)
  have final: "drop (length ?st - 2) ?st = [Release ?c, Sync]"
    by (simp add: length_concat_replicate click_steps_def)
  have total: "slept ?st = N * H + (N - 1) * D"
  proof -
    have "slept [Pause D] = D" by (simp add: slept_def)
    then have "slept ?st = int (nat (N - 1)) * (H + D) + H"
      by (simp only: slept_append slept_concat_replicate slept_click_steps)
    then show ?thesis
      unfolding N(2) by (simp add: algebra_simps)
  qed
  have time: "0 \<le> H \<and> 0 \<le> D \<longrightarrow>
      clock ?w' - clock w = N * H + (N - 1) * D + int (lag_sum e (nsleeps w) (nat (2 * N - 1)))"
    using n by (simp add: perform_clicks_def perform_clicks_loop_clock)
  have exact: "0 \<le> H \<and> 0 \<le> D \<and> exact_clock e \<longrightarrow> clock ?w' - clock w = N * H + (N - 1) * D"
  proof
    assume a: "0 \<le> H \<and> 0 \<le> D \<and> exact_clock e"
    then have "lag_sum e n m = 0" for n m by (simp add: lag_sum_exact)
    with time a show "clock ?w' - clock w = N * H + (N - 1) * D" by simp
  qed
  have deliv: "(\<forall>n. write_ok e n) \<longrightarrow> list_all write_succeeded (emitted w ?w')"
    unfolding perform_clicks_def by (simp add: perform_clicks_loop_all_written)
  show ?thesis
    unfolding Let_def st using key press release final total time exact deliv by simp
qed

theorem perform_clicks_exact_witness:
  "let w' = perform_clicks ideal_env 3 BTN_LEFT 3 50 100 (boot 0 0);
       st = steps (emitted (boot 0 0) w')
   in st = [Press 272, Sync, Pause 50, Release 272, Sync, Pause 100,
            Press 272, Sync, Pause 50, Release 272, Sync, Pause 100,
            Press 272, Sync, Pause 50, Release 272, Sync]
    \<and> length (filter is_press st) = 3 \<and> length (filter is_release st) = 3
    \<and> slept st = 350
    \<and> clock w' - clock (boot 0 0) = 350
    \<and> list_all write_succeeded (emitted (boot 0 0) w')"
  using perform_clicks_exact [of 3 ideal_env 3 BTN_LEFT 50 100 "boot 0 0"]
  by (simp add: Let_def ideal_env_def exact_clock_def BTN_LEFT_def click_steps_def
      numeral_2_eq_2 slept_def)

subsection \<open>The timed loop\<close>

lemma timed_cycle_fields [simp]:
  "clock (timed_cycle e fd button hold_ms click_speed w) =
     clock w + cycle_time hold_ms click_speed +
       int (lag e (nsleeps w)) + int (lag e (Suc (nsleeps w)))"
  "wall (timed_cycle e fd button hold_ms click_speed w) =
     wall w + cycle_time hold_ms click_speed +
       int (lag e (nsleeps w)) + int (lag e (Suc (nsleeps w)))"
  "nsleeps (timed_cycle e fd button hold_ms click_speed w) = Suc (Suc (nsleeps w))"
  "debug_mode (timed_cycle e fd button hold_ms click_speed w) = debug_mode w"
  "click_speed_ms (timed_cycle e fd button hold_ms click_speed w) = click_speed_ms w"
  by (simp_all add: timed_cycle_def cycle_time_def)

lemma timed_cycle_steps:
  "steps (trace (timed_cycle e fd button hold_ms click_speed w)) =
     steps (trace w) @ click_steps (word_of_int button) hold_ms @ [Pause click_speed]"
  by (simp add: timed_cycle_def click_body_steps)

lemma grows_timed_cycle: "prefix (trace w) (trace (timed_cycle e fd button hold_ms click_speed w))"
  unfolding timed_cycle_def
  by (rule prefix_order.trans [OF grows_click_body grows_sleep_ms])

lemma timed_cycle_all_written:
  assumes "\<forall>n. write_ok e n"
  shows "list_all write_succeeded (emitted w (timed_cycle e fd button hold_ms click_speed w))"
proof -
  let ?w3 = "send_event e fd button 0 (sleep_ms e hold_ms (send_event e fd button 1 w))"
  have "emitted w (sleep_ms e click_speed ?w3) = emitted w ?w3 @ emitted ?w3 (sleep_ms e click_speed ?w3)"
    by (rule emitted_compose [OF grows_click_body grows_sleep_ms])
  moreover have "emitted ?w3 (sleep_ms e click_speed ?w3) = [Sleep click_speed]"
    by (rule emitted_append) simp
  ultimately show ?thesis
    using click_body_all_written [OF assms, of w fd button hold_ms]
    by (simp add: timed_cycle_def)
qed

text \<open>k passes through the body of the timed loop\<close>

lemma cycles_nsleeps:
  "nsleeps ((timed_cycle e fd button hold_ms click_speed ^^ k) w) = nsleeps w + 2 * k"
  by (induction k) simp_all

lemma lag_sum_pass:
  "lag_sum e n (2 * Suc k) = lag_sum e n (2 * k) + lag e (n + 2 * k) + lag e (Suc (n + 2 * k))"
proof -
  have "2 * Suc k = Suc (Suc (2 * k))" by simp
  then show ?thesis by (simp only: lag_sum.simps add_Suc_right)
qed

lemma cycles_clock:
  "clock ((timed_cycle e fd button hold_ms click_speed ^^ k) w) =
     clock w + int k * cycle_time hold_ms click_speed + int (lag_sum e (nsleeps w) (2 * k))"
proof (induction k)
  case 0
  show ?case by simp
next
  case (Suc k)
  show ?case
    by (simp only: funpow.simps o_apply timed_cycle_fields Suc cycles_nsleeps lag_sum_pass)
      (simp add: algebra_simps)
qed

lemma cycles_steps:
  "steps (trace ((timed_cycle e fd button hold_ms click_speed ^^ k) w)) =
     steps (trace w) @
     concat (replicate k (click_steps (word_of_int button) hold_ms @ [Pause click_speed]))"
proof (induction k)
  case 0
  show ?case by simp
next
  case (Suc k)
  show ?case
    by (simp only: funpow.simps o_apply timed_cycle_steps Suc concat_replicate_snoc append_assoc)
qed

lemma grows_cycles:
  "prefix (trace w) (trace ((timed_cycle e fd button hold_ms click_speed ^^ k) w))"
proof (induction k)
  case 0
  show ?case by simp
next
  case (Suc k)
  show ?case
    using prefix_order.trans [OF Suc grows_timed_cycle] by simp
qed

lemma cycles_all_written:
  assumes "\<forall>n. write_ok e n"
  shows "list_all write_succeeded
    (emitted w ((timed_cycle e fd button hold_ms click_speed ^^ k) w))"
proof (induction k)
  case 0
  show ?case by simp
next
  case (Suc k)
  let ?wk = "(timed_cycle e fd button hold_ms click_speed ^^ k) w"
  have "emitted w (timed_cycle e fd button hold_ms click_speed ?wk) =
      emitted w ?wk @ emitted ?wk (timed_cycle e fd button hold_ms click_speed ?wk)"
    by (rule emitted_compose [OF grows_cycles grows_timed_cycle])
  then show ?case
    using Suc timed_cycle_all_written [OF assms] by simp
qed

text \<open>What the loop returns, when it returns: the world after the first pass at whose end
  the time is up.\<close>

lemma perform_timed_clicks_loop_result:
  assumes "perform_timed_clicks_loop e fd button start duration_ms hold_ms click_speed w = Some w'"
  shows "\<exists>k. w' = (timed_cycle e fd button hold_ms click_speed ^^ k) w \<and>
           (\<forall>j<k. clock ((timed_cycle e fd button hold_ms click_speed ^^ j) w) - start
                     < duration_ms) \<and>
           duration_ms \<le> clock ((timed_cycle e fd button hold_ms click_speed ^^ k) w) - start"
proof (rule perform_timed_clicks_loop.raw_induct
    [where P = "\<lambda>e fd button start duration_ms hold_ms click_speed w w'.
       \<exists>k. w' = (timed_cycle e fd button hold_ms click_speed ^^ k) w \<and>
           (\<forall>j<k. clock ((timed_cycle e fd button hold_ms click_speed ^^ j) w) - start
                     < duration_ms) \<and>
           duration_ms \<le> clock ((timed_cycle e fd button hold_ms click_speed ^^ k) w) - start",
     OF _ assms])
  fix loop :: "env \<Rightarrow> int \<Rightarrow> int \<Rightarrow> int \<Rightarrow> int \<Rightarrow> int \<Rightarrow> int \<Rightarrow> world \<Rightarrow> world option"
  fix e fd button start duration_ms hold_ms click_speed w w'
  assume IH: "\<And>e fd button start duration_ms hold_ms click_speed w y.
      loop e fd button start duration_ms hold_ms click_speed w = Some y \<Longrightarrow>
      \<exists>k. y = (timed_cycle e fd button hold_ms click_speed ^^ k) w \<and>
          (\<forall>j<k. clock ((timed_cycle e fd button hold_ms click_speed ^^ j) w) - start
                    < duration_ms) \<and>
          duration_ms \<le> clock ((timed_cycle e fd button hold_ms click_speed ^^ k) w) - start"
  assume body: "(if clock w - start < duration_ms
       then loop e fd button start duration_ms hold_ms click_speed
              (timed_cycle e fd button hold_ms click_speed w)
       else Some w) = Some w'"
  let ?cyc = "timed_cycle e fd button hold_ms click_speed"
  show "\<exists>k. w' = (?cyc ^^ k) w \<and>
           (\<forall>j<k. clock ((?cyc ^^ j) w) - start < duration_ms) \<and>
           duration_ms \<le> clock ((?cyc ^^ k) w) - start"
  proof (cases "clock w - start < duration_ms")
    case False
    with body have "w' = w" by simp
    with False show ?thesis by (intro exI [of _ 0]) simp
  next
    case True
    with body have "loop e fd button start duration_ms hold_ms click_speed (?cyc w) = Some w'"
      by simp
    from IH [OF this] obtain k where
      k: "w' = (?cyc ^^ k) (?cyc w)"
         "\<forall>j<k. clock ((?cyc ^^ j) (?cyc w)) - start < duration_ms"
         "duration_ms \<le> clock ((?cyc ^^ k) (?cyc w)) - start"
      by blast
    have shift: "(?cyc ^^ j) (?cyc w) = (?cyc ^^ Suc j) w" for j
      by (simp only: funpow_Suc_right o_apply)
    have "w' = (?cyc ^^ Suc k) w"
      using k(1) by (simp only: shift)
    moreover have "\<forall>j<Suc k. clock ((?cyc ^^ j) w) - start < duration_ms"
    proof (intro allI impI)
      fix j assume "j < Suc k"
      show "clock ((?cyc ^^ j) w) - start < duration_ms"
      proof (cases j)
        case 0
        with True show ?thesis by simp
      next
        case (Suc j')
        with \<open>j < Suc k\<close> have "j' < k" by simp
        with k(2) have "clock ((?cyc ^^ j') (?cyc w)) - start < duration_ms" by blast
        then show ?thesis unfolding Suc by (simp only: shift)
      qed
    qed
    moreover have "duration_ms \<le> clock ((?cyc ^^ Suc k) w) - start"
      using k(3) by (simp only: shift)
    ultimately show ?thesis by blast
  qed
qed

text \<open>And the loop does return that world.\<close>

lemma perform_timed_clicks_loop_complete:
  assumes "\<forall>j<k. clock ((timed_cycle e fd button hold_ms click_speed ^^ j) w) - start
                    < duration_ms"
    and "duration_ms \<le> clock ((timed_cycle e fd button hold_ms click_speed ^^ k) w) - start"
  shows "perform_timed_clicks_loop e fd button start duration_ms hold_ms click_speed w =
    Some ((timed_cycle e fd button hold_ms click_speed ^^ k) w)"
  using assms
proof (induction k arbitrary: w)
  case 0
  then show ?case by (subst perform_timed_clicks_loop.simps) simp
next
  case (Suc k)
  let ?cyc = "timed_cycle e fd button hold_ms click_speed"
  have shift: "(?cyc ^^ j) (?cyc w) = (?cyc ^^ Suc j) w" for j
    by (simp only: funpow_Suc_right o_apply)
  from Suc.prems(1) have first: "clock w - start < duration_ms"
    by (auto dest: spec [of _ 0])
  have "\<forall>j<k. clock ((?cyc ^^ j) (?cyc w)) - start < duration_ms"
  proof (intro allI impI)
    fix j assume "j < k"
    then have "Suc j < Suc k" by simp
    with Suc.prems(1) have "clock ((?cyc ^^ Suc j) w) - start < duration_ms" by blast
    then show "clock ((?cyc ^^ j) (?cyc w)) - start < duration_ms" by (simp only: shift)
  qed
  moreover have "duration_ms \<le> clock ((?cyc ^^ k) (?cyc w)) - start"
    using Suc.prems(2) by (simp only: shift)
  ultimately have "perform_timed_clicks_loop e fd button start duration_ms hold_ms click_speed
      (?cyc w) = Some ((?cyc ^^ k) (?cyc w))"
    by (rule Suc.IH)
  then show ?case
    using first by (subst perform_timed_clicks_loop.simps) (simp only: shift if_True)
qed


text \<open>The time on the clock after \<open>j\<close> passes that began with the n-th sleep: the times
  asked for and the lags of the \<open>2 * j\<close> sleeps.\<close>

lemma perform_timed_clicks_result:
  assumes "perform_timed_clicks e fd button duration_ms hold_ms click_speed w = Some w'"
  shows "\<exists>k. prefix (trace w) (trace w') \<and>
           steps (trace w') = steps (trace w) @
             concat (replicate k (click_steps (word_of_int button) hold_ms @ [Pause click_speed])) \<and>
           clock w' = clock w + int k * cycle_time hold_ms click_speed +
             int (lag_sum e (nsleeps w) (2 * k)) \<and>
           nsleeps w' = nsleeps w + 2 * k \<and>
           (\<forall>j<k. int j * cycle_time hold_ms click_speed + int (lag_sum e (nsleeps w) (2 * j))
                     < duration_ms) \<and>
           duration_ms \<le> int k * cycle_time hold_ms click_speed +
             int (lag_sum e (nsleeps w) (2 * k))"
proof -
  let ?w1 = "if debug_mode w then act (Cout (DbgTimed duration_ms hold_ms click_speed)) w else w"
  let ?cyc = "timed_cycle e fd button hold_ms click_speed"
  have w1: "clock ?w1 = clock w" "steps (trace ?w1) = steps (trace w)"
    "prefix (trace w) (trace ?w1)" "nsleeps ?w1 = nsleeps w"
    by simp_all
  from assms have "perform_timed_clicks_loop e fd button (clock ?w1) duration_ms hold_ms
      click_speed ?w1 = Some w'"
    by (simp add: perform_timed_clicks_def Let_def)
  from perform_timed_clicks_loop_result [OF this] obtain k where
    k: "w' = (?cyc ^^ k) ?w1"
       "\<forall>j<k. clock ((?cyc ^^ j) ?w1) - clock ?w1 < duration_ms"
       "duration_ms \<le> clock ((?cyc ^^ k) ?w1) - clock ?w1"
    by blast
  have "prefix (trace w) (trace w')"
    unfolding k(1) by (rule prefix_order.trans [OF w1(3) grows_cycles])
  moreover have "steps (trace w') = steps (trace w) @
      concat (replicate k (click_steps (word_of_int button) hold_ms @ [Pause click_speed]))"
    unfolding k(1) cycles_steps w1(2) ..
  moreover have "clock w' = clock w + int k * cycle_time hold_ms click_speed +
      int (lag_sum e (nsleeps w) (2 * k))"
    unfolding k(1) cycles_clock w1(1) w1(4) ..
  moreover have "nsleeps w' = nsleeps w + 2 * k"
    unfolding k(1) cycles_nsleeps w1(4) ..
  moreover have "\<forall>j<k. int j * cycle_time hold_ms click_speed +
      int (lag_sum e (nsleeps w) (2 * j)) < duration_ms"
    using k(2) unfolding cycles_clock w1(1) w1(4) by simp
  moreover have "duration_ms \<le> int k * cycle_time hold_ms click_speed +
      int (lag_sum e (nsleeps w) (2 * k))"
    using k(3) unfolding cycles_clock w1(1) w1(4) by simp
  ultimately show ?thesis by blast
qed

text \<open>Conversely, the first \<open>k\<close> at which the time is up is the number of passes.\<close>

lemma perform_timed_clicks_complete:
  assumes "\<forall>j<k. int j * cycle_time hold_ms click_speed + int (lag_sum e (nsleeps w) (2 * j))
                    < duration_ms"
    and "duration_ms \<le> int k * cycle_time hold_ms click_speed +
           int (lag_sum e (nsleeps w) (2 * k))"
  shows "\<exists>w'. perform_timed_clicks e fd button duration_ms hold_ms click_speed w = Some w' \<and>
           steps (emitted w w') =
             concat (replicate k (click_steps (word_of_int button) hold_ms @ [Pause click_speed]))"
proof -
  let ?w1 = "if debug_mode w then act (Cout (DbgTimed duration_ms hold_ms click_speed)) w else w"
  let ?cyc = "timed_cycle e fd button hold_ms click_speed"
  have w1: "clock ?w1 = clock w" "steps (trace ?w1) = steps (trace w)"
    "prefix (trace w) (trace ?w1)" "nsleeps ?w1 = nsleeps w"
    by simp_all
  have "\<forall>j<k. clock ((?cyc ^^ j) ?w1) - clock ?w1 < duration_ms"
    using assms(1) unfolding cycles_clock w1(1) w1(4) by simp
  moreover have "duration_ms \<le> clock ((?cyc ^^ k) ?w1) - clock ?w1"
    using assms(2) unfolding cycles_clock w1(1) w1(4) by simp
  ultimately have "perform_timed_clicks_loop e fd button (clock ?w1) duration_ms hold_ms
      click_speed ?w1 = Some ((?cyc ^^ k) ?w1)"
    by (rule perform_timed_clicks_loop_complete)
  then have ret: "perform_timed_clicks e fd button duration_ms hold_ms click_speed w =
      Some ((?cyc ^^ k) ?w1)"
    by (simp add: perform_timed_clicks_def Let_def)
  have "prefix (trace w) (trace ((?cyc ^^ k) ?w1))"
    by (rule prefix_order.trans [OF w1(3) grows_cycles])
  moreover have "steps (trace ((?cyc ^^ k) ?w1)) = steps (trace w) @
      concat (replicate k (click_steps (word_of_int button) hold_ms @ [Pause click_speed]))"
    unfolding cycles_steps w1(2) ..
  ultimately have "steps (emitted w ((?cyc ^^ k) ?w1)) =
      concat (replicate k (click_steps (word_of_int button) hold_ms @ [Pause click_speed]))"
    by (rule steps_emitted)
  with ret show ?thesis by blast
qed




subsection \<open>One press, one release\<close>

lemma send_event_writes:
  "writes (emitted w (send_event e fd button action w)) =
     [(\<lparr>ie_time = wall w, ie_type = EV_KEY, ie_code = word_of_int button,
        ie_value = word_of_int action\<rparr>, write_ok e (nwrites w)),
      (\<lparr>ie_time = wall w, ie_type = EV_SYN, ie_code = SYN_REPORT, ie_value = 0\<rparr>,
       write_ok e (Suc (nwrites w)))]"
  by (simp add: emitted_append [OF send_event_trace])

text \<open>
  C4. A press (action 1) hands two event records to \<^verbatim>\<open>write\<close>, in this order: a key event
  whose code is the button and whose value is 1, then a report event \<^verbatim>\<open>SYN_REPORT\<close> with
  value 0; a release (action 0) hands over the same pair with key value 0. The code is the
  button itself for every button that fits \<^verbatim>\<open>uint16_t\<close>, so for \<^verbatim>\<open>BTN_LEFT\<close> and
  \<^verbatim>\<open>BTN_RIGHT\<close>. When neither write fails both events reach the device.
\<close>

theorem send_event_pair:
  "map fst (writes (emitted w (send_event e fd button 1 w))) =
     [\<lparr>ie_time = wall w, ie_type = EV_KEY, ie_code = word_of_int button, ie_value = 1\<rparr>,
      \<lparr>ie_time = wall w, ie_type = EV_SYN, ie_code = SYN_REPORT, ie_value = 0\<rparr>]
   \<and> map fst (writes (emitted w (send_event e fd button 0 w))) =
     [\<lparr>ie_time = wall w, ie_type = EV_KEY, ie_code = word_of_int button, ie_value = 0\<rparr>,
      \<lparr>ie_time = wall w, ie_type = EV_SYN, ie_code = SYN_REPORT, ie_value = 0\<rparr>]
   \<and> steps (emitted w (send_event e fd button 1 w)) = [Press (word_of_int button), Sync]
   \<and> steps (emitted w (send_event e fd button 0 w)) = [Release (word_of_int button), Sync]
   \<and> (0 \<le> button \<and> button < 65536 \<longrightarrow> uint (word_of_int button :: 16 word) = button)
   \<and> (write_ok e (nwrites w) \<and> write_ok e (Suc (nwrites w)) \<longrightarrow>
        map snd (writes (emitted w (send_event e fd button 1 w))) = [True, True] \<and>
        map snd (writes (emitted w (send_event e fd button 0 w))) = [True, True])"
proof -
  have "uint (word_of_int button :: 16 word) = button" if "0 \<le> button" "button < 65536"
    using that by (simp add: uint_word_of_int take_bit_int_eq_self)
  moreover have "steps (emitted w (send_event e fd button 1 w)) = [Press (word_of_int button), Sync]"
    by (rule steps_emitted [OF grows_send_event]) (simp add: send_event_steps)
  moreover have "steps (emitted w (send_event e fd button 0 w)) = [Release (word_of_int button), Sync]"
    by (rule steps_emitted [OF grows_send_event]) (simp add: send_event_steps)
  ultimately show ?thesis
    by (simp add: send_event_writes)
qed

theorem send_event_pair_witness:
  "map fst (writes (emitted (boot 0 7) (send_event ideal_env 3 BTN_LEFT 1 (boot 0 7)))) =
     [\<lparr>ie_time = 7, ie_type = 1, ie_code = 272, ie_value = 1\<rparr>,
      \<lparr>ie_time = 7, ie_type = 0, ie_code = 0, ie_value = 0\<rparr>]
   \<and> map fst (writes (emitted (boot 0 7) (send_event ideal_env 3 BTN_LEFT 0 (boot 0 7)))) =
     [\<lparr>ie_time = 7, ie_type = 1, ie_code = 272, ie_value = 0\<rparr>,
      \<lparr>ie_time = 7, ie_type = 0, ie_code = 0, ie_value = 0\<rparr>]
   \<and> uint (word_of_int BTN_LEFT :: 16 word) = 272
   \<and> map snd (writes (emitted (boot 0 7) (send_event ideal_env 3 BTN_LEFT 1 (boot 0 7)))) =
       [True, True]"
  using send_event_pair [of "boot 0 7" ideal_env 3 BTN_LEFT]
  by (simp add: BTN_LEFT_def boot_def ideal_env_def EV_KEY_def EV_SYN_def SYN_REPORT_def)

subsection \<open>Reading numbers and durations\<close>

lemma isdigit_cases:
  "isdigit c \<longleftrightarrow> c = CHR ''0'' \<or> c = CHR ''1'' \<or> c = CHR ''2'' \<or> c = CHR ''3'' \<or> c = CHR ''4'' \<or>
     c = CHR ''5'' \<or> c = CHR ''6'' \<or> c = CHR ''7'' \<or> c = CHR ''8'' \<or> c = CHR ''9''"
  by (auto simp: isdigit_def)

lemma isdigit_not_isspace: "isdigit c \<Longrightarrow> \<not> isspace c"
  by (auto simp: isdigit_cases isspace_def)

lemma isdigit_not_sign: "isdigit c \<Longrightarrow> c \<noteq> CHR ''-'' \<and> c \<noteq> CHR ''+''"
  by (auto simp: isdigit_cases)

lemma digit_val_range: "isdigit c \<Longrightarrow> 0 \<le> digit_val c \<and> digit_val c \<le> 9"
  by (auto simp: isdigit_cases digit_val_def)

lemma digits_val_snoc: "digits_val (ds @ [c]) = digits_val ds * 10 + digit_val c"
  by (simp add: digits_val_def)

lemma digits_val_nonneg: "list_all isdigit ds \<Longrightarrow> 0 \<le> digits_val ds"
proof (induction ds rule: rev_induct)
  case Nil
  show ?case by (simp add: digits_val_def)
next
  case (snoc c ds)
  then have "0 \<le> digits_val ds" "0 \<le> digit_val c"
    by (simp_all add: digit_val_range)
  then show ?case by (simp add: digits_val_snoc)
qed

text \<open>\<^verbatim>\<open>stoi\<close> on a string that starts with a digit: the value of its run of digits.\<close>

lemma takeWhile_digits:
  "list_all isdigit ds \<Longrightarrow> (rest = [] \<or> \<not> isdigit (hd rest)) \<Longrightarrow>
   takeWhile isdigit (ds @ rest) = ds"
  by (cases rest) (simp_all add: list_all_iff takeWhile_append2)

lemma stoi_digits:
  assumes "ds \<noteq> []" and "list_all isdigit ds" and "rest = [] \<or> \<not> isdigit (hd rest)"
  shows "stoi (ds @ rest) =
    (if INT_MAX < digits_val ds then Inl OutOfRange else Inr (digits_val ds))"
proof -
  from assms(1) obtain d ds' where ds: "ds = d # ds'" by (cases ds) auto
  with assms(2) have d: "isdigit d" by simp
  have "dropWhile isspace (ds @ rest) = ds @ rest"
    using d by (simp add: ds isdigit_not_isspace)
  moreover have "takeWhile isdigit (ds @ rest) = ds"
    by (rule takeWhile_digits [OF assms(2,3)])
  moreover have "INT_MIN \<le> digits_val ds"
    using digits_val_nonneg [OF assms(2)] by (simp add: INT_MIN_def)
  ultimately show ?thesis
    using d isdigit_not_sign [OF d] assms(1)
    by (simp add: stoi_def Let_def ds)
qed

lemma find_first_not_of_digits:
  "list_all isdigit ds \<Longrightarrow> \<not> isdigit c \<Longrightarrow>
   find_first_not_of (ds @ c # rest) ''0123456789'' = Some (length ds)"
  by (induction ds) (simp_all add: isdigit_def)

lemma find_first_not_of_all_digits:
  "list_all isdigit ds \<Longrightarrow> find_first_not_of ds ''0123456789'' = None"
  by (induction ds) (simp_all add: isdigit_def)

lemma wrap32_id: "- 2147483648 \<le> x \<Longrightarrow> x \<le> 2147483647 \<Longrightarrow> wrap32 x = x"
  by (simp add: wrap32_def)

text \<open>
  C9, as the code has it. A duration string made of digits \<open>ds\<close>, then a character \<open>c\<close>
  that is not a digit, then anything: when the digits are worth 0 or more than \<^verbatim>\<open>INT_MAX\<close>
  the string is rejected (\<^verbatim>\<open>stoi\<close> throws \<^verbatim>\<open>out_of_range\<close>, and the positive check comes
  after it); otherwise the value of the digits is returned as milliseconds when \<open>c\<close> is not
  \<^verbatim>\<open>s\<close>, whatever follows \<open>c\<close>: only the first character after the digits is looked at.
  When \<open>c\<close> is \<^verbatim>\<open>s\<close> and the value is at most 2147483, a thousand times the value is
  returned. When \<open>c\<close> is \<^verbatim>\<open>s\<close> and the value is larger, \<^verbatim>\<open>value * 1000\<close> does not fit
  \<^verbatim>\<open>int\<close>: no check of \<^verbatim>\<open>parse_duration\<close> rejects the string, the multiplication is
  undefined in C++, and what is returned here is the two's complement result, which is not
  a thousand times the value and may be 0 or negative. Nothing is printed when a value is
  returned.
\<close>

theorem parse_duration_suffix:
  assumes "ds \<noteq> []" and "list_all isdigit ds" and "\<not> isdigit c"
  shows "parse_duration (ds @ c # rest) w =
    (if digits_val ds = 0 \<or> INT_MAX < digits_val ds then
       (Inl (Exited EXIT_FAILURE), act (Cerr (ErrInvalidDuration (ds @ c # rest))) w)
     else if c \<noteq> CHR ''s'' then (Inr (digits_val ds), w)
     else if digits_val ds \<le> 2147483 then (Inr (digits_val ds * 1000), w)
     else (Inr (wrap32 (digits_val ds * 1000)), w))"
proof -
  have st: "stoi (ds @ c # rest) =
      (if INT_MAX < digits_val ds then Inl OutOfRange else Inr (digits_val ds))"
    by (rule stoi_digits [OF assms(1,2)]) (simp add: assms(3))
  have pos: "find_first_not_of (ds @ c # rest) ''0123456789'' = Some (length ds)"
    by (rule find_first_not_of_digits [OF assms(2,3)])
  have nn: "0 \<le> digits_val ds"
    by (rule digits_val_nonneg [OF assms(2)])
  have fits: "wrap32 (digits_val ds * 1000) = digits_val ds * 1000" if "digits_val ds \<le> 2147483"
    using that nn by (intro wrap32_id) simp_all
  have "parse_duration (ds @ c # rest) w =
    (if digits_val ds = 0 \<or> INT_MAX < digits_val ds then
       (Inl (Exited EXIT_FAILURE), act (Cerr (ErrInvalidDuration (ds @ c # rest))) w)
     else if c = CHR ''s'' then (Inr (wrap32 (digits_val ds * 1000)), w)
     else (Inr (digits_val ds), w))"
    using nn by (auto simp: parse_duration_def Let_def st pos)
  with fits show ?thesis by simp
qed

theorem parse_duration_suffix_witness:
  "parse_duration ''10min'' (boot 0 0) = (Inr 10, boot 0 0)
   \<and> parse_duration ''5s'' (boot 0 0) = (Inr 5000, boot 0 0)
   \<and> parse_duration ''2147483s'' (boot 0 0) = (Inr 2147483000, boot 0 0)
   \<and> parse_duration ''2147484s'' (boot 0 0) = (Inr (- 2147483296), boot 0 0)
   \<and> parse_duration ''536870912s'' (boot 0 0) = (Inr 0, boot 0 0)"
  using parse_duration_suffix [of "''10''" "CHR ''m''" "''in''" "boot 0 0"]
    parse_duration_suffix [of "''5''" "CHR ''s''" "''''" "boot 0 0"]
    parse_duration_suffix [of "''2147483''" "CHR ''s''" "''''" "boot 0 0"]
    parse_duration_suffix [of "''2147484''" "CHR ''s''" "''''" "boot 0 0"]
    parse_duration_suffix [of "''536870912''" "CHR ''s''" "''''" "boot 0 0"]
  by (simp add: isdigit_def digits_val_def digit_val_def INT_MAX_def wrap32_def)

theorem parse_duration_suffix_counterexample:
  "fst (parse_duration ''5sec'' (boot 0 0)) = Inr 5000
   \<and> fst (parse_duration ''99999999999x'' (boot 0 0)) = Inl (Exited EXIT_FAILURE)"
  by (simp add: parse_duration_def stoi_def isspace_def isdigit_def digits_val_def digit_val_def
      INT_MAX_def INT_MIN_def wrap32_def)

lemma stoi_digit_leading:
  assumes "isdigit c"
  shows "stoi (c # s) =
    (if INT_MAX < digits_val (takeWhile isdigit (c # s)) then Inl OutOfRange
     else Inr (digits_val (takeWhile isdigit (c # s))))"
proof -
  let ?ds = "takeWhile isdigit (c # s)"
  let ?rest = "dropWhile isdigit (c # s)"
  have "?ds \<noteq> []" using assms by simp
  moreover have "list_all isdigit ?ds"
    by (simp only: list_all_iff) (blast dest: set_takeWhileD)
  moreover have "?rest = [] \<or> \<not> isdigit (hd ?rest)"
    by (metis hd_dropWhile)
  ultimately have "stoi (?ds @ ?rest) =
      (if INT_MAX < digits_val ?ds then Inl OutOfRange else Inr (digits_val ?ds))"
    by (rule stoi_digits)
  then show ?thesis by (simp only: takeWhile_dropWhile_id)
qed

text \<open>
  C10, as the code has it. \<^verbatim>\<open>get_count\<close> looks at the first argument, from \<^verbatim>\<open>argv[0]\<close> on,
  whose first character is a digit. With no such argument it returns 1. Otherwise it returns
  the value of the digits that argument starts with, when that value fits \<^verbatim>\<open>int\<close>; when it
  does not, \<^verbatim>\<open>stoi\<close> throws \<^verbatim>\<open>out_of_range\<close>, which nothing catches. So the value of an
  option is taken for the count: with a program name and a button that do not start with a
  digit, the count of \<^verbatim>\<open>prog btn opt v ...\<close> is read from \<open>v\<close>, whatever the option.
\<close>

theorem get_count_first_digit_leading:
  "get_count argv =
    (case find (\<lambda>arg. arg \<noteq> [] \<and> isdigit (hd arg)) argv of
       None \<Rightarrow> Inr 1
     | Some arg \<Rightarrow>
         if INT_MAX < digits_val (takeWhile isdigit arg) then Inl OutOfRange
         else Inr (digits_val (takeWhile isdigit arg)))
   \<and> ((\<forall>arg \<in> {prog, btn, opt}. arg = [] \<or> \<not> isdigit (hd arg)) \<and> isdigit c \<longrightarrow>
        get_count (prog # btn # opt # (c # v) # rest) = stoi (c # v))"
proof -
  have "get_count argv =
    (case find (\<lambda>arg. arg \<noteq> [] \<and> isdigit (hd arg)) argv of
       None \<Rightarrow> Inr 1
     | Some arg \<Rightarrow>
         if INT_MAX < digits_val (takeWhile isdigit arg) then Inl OutOfRange
         else Inr (digits_val (takeWhile isdigit arg)))"
  proof (induction argv)
    case Nil
    show ?case by (simp add: DEFAULT_CLICK_COUNT_def)
  next
    case (Cons arg argv)
    show ?case
    proof (cases arg)
      case Nil
      with Cons show ?thesis by simp
    next
      case (Cons c s)
      show ?thesis
      proof (cases "isdigit c")
        case True
        with Cons show ?thesis
          by (simp only: get_count.simps list.case if_True stoi_digit_leading [OF True])
             simp
      next
        case False
        with Cons \<open>get_count argv = _\<close> show ?thesis by simp
      qed
    qed
  qed
  moreover have "get_count (prog # btn # opt # (c # v) # rest) = stoi (c # v)"
    if "\<forall>arg \<in> {prog, btn, opt}. arg = [] \<or> \<not> isdigit (hd arg)" "isdigit c"
    using that by (auto split: list.splits)
  ultimately show ?thesis by blast
qed

theorem get_count_first_digit_leading_witness:
  "get_count [''mclick'', ''l'', ''--hold'', ''50''] = Inr 50
   \<and> get_count [''mclick'', ''r'', ''-d''] = Inr 1"
  using get_count_first_digit_leading [of "[''mclick'', ''l'', ''--hold'', ''50'']"
      "''mclick''" "''l''" "''--hold''" "CHR ''5''" "''0''" "[]"]
    get_count_first_digit_leading [of "[''mclick'', ''r'', ''-d'']"]
  by (simp add: isdigit_def digits_val_def digit_val_def INT_MAX_def)

theorem get_count_first_digit_leading_counterexample:
  "get_count [''mclick'', ''l'', ''99999999999''] = Inl OutOfRange
   \<and> map_option fst (main ideal_env [''mclick'', ''l'', ''99999999999''] (boot 0 0)) =
       Some (Terminated OutOfRange)"
  by (simp add: main_def BUTTONS_def stoi_def isspace_def isdigit_def digits_val_def
      digit_val_def INT_MAX_def INT_MIN_def)

subsection \<open>The option loop\<close>

lemma parse_duration_bad:
  "bad_duration s \<Longrightarrow>
   parse_duration s w = (Inl (Exited EXIT_FAILURE), act (Cerr (ErrInvalidDuration s)) w)"
  by (auto simp: parse_duration_def bad_duration_def Let_def split: sum.splits)

lemma parse_duration_good:
  assumes "\<not> bad_duration s"
  shows "\<exists>v. \<forall>w. parse_duration s w = (Inr v, w)"
proof -
  from assms obtain x where x: "stoi s = Inr x" "0 < x"
    by (auto simp: bad_duration_def split: sum.splits)
  show ?thesis
  proof (cases "find_first_not_of s ''0123456789''")
    case None
    with x show ?thesis by (intro exI [of _ x]) (simp add: parse_duration_def)
  next
    case (Some p)
    show ?thesis
    proof (cases "s ! p = CHR ''s''")
      case True
      with x Some show ?thesis
        by (intro exI [of _ "wrap32 (x * 1000)"]) (simp add: parse_duration_def)
    next
      case False
      with x Some show ?thesis by (intro exI [of _ x]) (simp add: parse_duration_def)
    qed
  qed
qed

lemma parse_duration_cases:
  obtains (bad) "bad_duration s"
      "\<And>w. parse_duration s w = (Inl (Exited EXIT_FAILURE), act (Cerr (ErrInvalidDuration s)) w)"
    | (good) v where "\<not> bad_duration s" "\<And>w. parse_duration s w = (Inr v, w)"
  using parse_duration_bad parse_duration_good by (cases "bad_duration s") blast+

lemma get_duration_cases:
  obtains (bad) s where
      "\<And>w. get_duration argv option w =
         (Inl (Exited EXIT_FAILURE), act (Cerr (ErrInvalidDuration s)) w)"
    | (good) v where "\<And>w. get_duration argv option w = (Inr v, w)"
proof (induction argv arbitrary: thesis)
  case Nil
  show ?case by (rule Nil(2) [of 0]) simp
next
  case (Cons a argv)
  show ?case
  proof (cases argv)
    case Nil
    show ?thesis by (rule Cons.prems(2) [of 0]) (simp add: Nil)
  next
    case (Cons b rest)
    note argv = this
    show ?thesis
    proof (cases "option = a")
      case True
      show ?thesis
      proof (cases b rule: parse_duration_cases)
        case bad
        with True show ?thesis by (intro Cons.prems(1) [of b]) (simp add: argv)
      next
        case (good v)
        with True show ?thesis by (intro Cons.prems(2) [of v]) (simp add: argv)
      qed
    next
      case False
      show ?thesis
      proof (rule Cons.IH)
        fix s
        assume "\<And>w. get_duration argv option w =
          (Inl (Exited EXIT_FAILURE), act (Cerr (ErrInvalidDuration s)) w)"
        with False show ?thesis by (intro Cons.prems(1) [of s]) (simp add: argv)
      next
        fix v
        assume "\<And>w. get_duration argv option w = (Inr v, w)"
        with False show ?thesis by (intro Cons.prems(2) [of v]) (simp add: argv)
      qed
    qed
  qed
qed


lemma main_loop_done:
  "\<not> i < length argv \<Longrightarrow> main_loop argv i hold_ms duration_ms w = (Inr (hold_ms, duration_ms), w)"
  by (subst main_loop.simps) simp

lemma main_loop_debug:
  "i < length argv \<Longrightarrow> argv ! i = ''-d'' \<or> argv ! i = ''--debug'' \<Longrightarrow>
   main_loop argv i hold_ms duration_ms w =
   main_loop argv (i + 1) hold_ms duration_ms (act (Cout DbgEnabled) (w\<lparr>debug_mode := True\<rparr>))"
  by (subst main_loop.simps) (simp add: Let_def)

lemma main_loop_hold:
  "i + 1 < length argv \<Longrightarrow> argv ! i = ''-h'' \<or> argv ! i = ''--hold'' \<Longrightarrow>
   parse_duration (argv ! (i + 1)) w = (r, w') \<Longrightarrow>
   main_loop argv i hold_ms duration_ms w =
   (case r of
      Inl out \<Rightarrow> (Inl out, w')
    | Inr v \<Rightarrow> main_loop argv (i + 2) v duration_ms w')"
  by (subst main_loop.simps) (auto simp: Let_def split: sum.splits)

lemma main_loop_clickspeed:
  "i + 1 < length argv \<Longrightarrow> argv ! i = ''-cs'' \<or> argv ! i = ''--clickspeed'' \<Longrightarrow>
   parse_duration (argv ! (i + 1)) w = (r, w') \<Longrightarrow>
   main_loop argv i hold_ms duration_ms w =
   (case r of
      Inl out \<Rightarrow> (Inl out, w')
    | Inr v \<Rightarrow> main_loop argv (i + 2) hold_ms duration_ms (w'\<lparr>click_speed_ms := v\<rparr>))"
  by (subst main_loop.simps) (auto simp: Let_def split: sum.splits)

lemma main_loop_time:
  "i + 1 < length argv \<Longrightarrow> argv ! i = ''-t'' \<or> argv ! i = ''--time'' \<Longrightarrow>
   get_duration argv (argv ! i) w = (r, w') \<Longrightarrow>
   main_loop argv i hold_ms duration_ms w =
   (case r of
      Inl out \<Rightarrow> (Inl out, w')
    | Inr v \<Rightarrow> main_loop argv (i + 1) hold_ms v w')"
  by (subst main_loop.simps) (auto simp: Let_def split: sum.splits)

lemma main_loop_other:
  "i < length argv \<Longrightarrow> argv ! i \<noteq> ''-d'' \<Longrightarrow> argv ! i \<noteq> ''--debug'' \<Longrightarrow>
   \<not> (argv ! i \<in> {''-h'', ''--hold'', ''-cs'', ''--clickspeed'', ''-t'', ''--time''} \<and>
      i + 1 < length argv) \<Longrightarrow>
   main_loop argv i hold_ms duration_ms w = main_loop argv (i + 1) hold_ms duration_ms w"
  by (subst main_loop.simps) (auto simp: Let_def cong: sum.case_cong)

lemma emitted_act [simp]: "emitted w (act a w) = [a]"
  by (simp add: emitted_def)

lemma emitted_update [simp]:
  "emitted w (w\<lparr>debug_mode := b\<rparr>) = []" "emitted w (w\<lparr>click_speed_ms := v\<rparr>) = []"
  by (simp_all add: emitted_def)

lemma emitted_click_speed [simp]: "emitted w (w'\<lparr>click_speed_ms := v\<rparr>) = emitted w w'"
  by (simp add: emitted_def)

text \<open>One turn of the option loop: it rejects a duration, or goes on at a later index.\<close>

lemma main_loop_step:
  assumes "i < length argv"
  obtains (reject) s where
      "main_loop argv i hold_ms duration_ms w =
         (Inl (Exited EXIT_FAILURE), act (Cerr (ErrInvalidDuration s)) w)"
    | (continue) i' h' d' w' where
      "main_loop argv i hold_ms duration_ms w = main_loop argv i' h' d' w'" "i < i'"
      "w' = w \<or> w' = act (Cout DbgEnabled) (w\<lparr>debug_mode := True\<rparr>) \<or>
       (\<exists>v. w' = w\<lparr>click_speed_ms := v\<rparr>)"
      "i' = i + 1 \<or> i' = i + 2 \<and> \<not> bad_duration (argv ! (i + 1))"
      "d' = duration_ms \<or> i + 1 < length argv \<and> (argv ! i = ''-t'' \<or> argv ! i = ''--time'')"
proof -
  consider (debug) "argv ! i = ''-d'' \<or> argv ! i = ''--debug''"
    | (hold) "i + 1 < length argv" "argv ! i = ''-h'' \<or> argv ! i = ''--hold''"
    | (clickspeed) "i + 1 < length argv" "argv ! i = ''-cs'' \<or> argv ! i = ''--clickspeed''"
    | (time) "i + 1 < length argv" "argv ! i = ''-t'' \<or> argv ! i = ''--time''"
    | (other) "argv ! i \<noteq> ''-d''" "argv ! i \<noteq> ''--debug''"
        "\<not> (argv ! i \<in> {''-h'', ''--hold'', ''-cs'', ''--clickspeed'', ''-t'', ''--time''} \<and>
           i + 1 < length argv)"
    by blast
  then show thesis
  proof cases
    case debug
    show thesis
      by (rule continue [OF main_loop_debug [OF assms debug]]) simp_all
  next
    case hold
    show thesis
    proof (cases "argv ! (i + 1)" rule: parse_duration_cases)
      case bad
      show thesis
        by (rule reject [of "argv ! (i + 1)"]) (simp add: main_loop_hold [OF hold bad(2)])
    next
      case (good v)
      show thesis
        by (rule continue [of "i + 2" v duration_ms w])
           (use good(1) in \<open>simp_all add: main_loop_hold [OF hold good(2)]\<close>)
    qed
  next
    case clickspeed
    show thesis
    proof (cases "argv ! (i + 1)" rule: parse_duration_cases)
      case bad
      show thesis
        by (rule reject [of "argv ! (i + 1)"])
           (simp add: main_loop_clickspeed [OF clickspeed bad(2)])
    next
      case (good v)
      show thesis
        by (rule continue [of "i + 2" hold_ms duration_ms "w\<lparr>click_speed_ms := v\<rparr>"])
           (use good(1) in \<open>auto simp: main_loop_clickspeed [OF clickspeed good(2)]\<close>)
    qed
  next
    case time
    show thesis
    proof (cases argv "argv ! i" rule: get_duration_cases)
      case (bad s)
      show thesis
        by (rule reject [of s]) (simp add: main_loop_time [OF time bad])
    next
      case (good v)
      show thesis
        by (rule continue [of "i + 1" hold_ms v w])
           (use time in \<open>simp_all add: main_loop_time [OF time good]\<close>)
    qed
  next
    case other
    show thesis
      by (rule continue [OF main_loop_other [OF assms other]]) simp_all
  qed
qed

lemma main_loop_inv:
  "prefix (trace w) (trace (snd (main_loop argv i hold_ms duration_ms w))) \<and>
   list_all is_parse_action (emitted w (snd (main_loop argv i hold_ms duration_ms w))) \<and>
   clock (snd (main_loop argv i hold_ms duration_ms w)) = clock w \<and>
   wall (snd (main_loop argv i hold_ms duration_ms w)) = wall w \<and>
   nwrites (snd (main_loop argv i hold_ms duration_ms w)) = nwrites w \<and>
   (\<forall>out. fst (main_loop argv i hold_ms duration_ms w) = Inl out \<longrightarrow>
      out = Exited EXIT_FAILURE \<and>
      list_ex is_diagnostic (emitted w (snd (main_loop argv i hold_ms duration_ms w))))"
proof (induction "length argv - i" arbitrary: i hold_ms duration_ms w rule: less_induct)
  case less
  show ?case
  proof (cases "i < length argv")
    case False
    then show ?thesis by (simp add: main_loop_done)
  next
    case True
    then show ?thesis
    proof (cases rule: main_loop_step [where hold_ms = hold_ms and duration_ms = duration_ms
          and w = w])
      case (reject s)
      then show ?thesis by simp
    next
      case (continue i' h' d' w')
      let ?r = "main_loop argv i' h' d' w'"
      from continue(2) True have "length argv - i' < length argv - i" by simp
      note IH = less [OF this, where hold_ms = h' and duration_ms = d' and w = w']
      from continue(3) have w': "prefix (trace w) (trace w')"
        "list_all is_parse_action (emitted w w')" "clock w' = clock w" "wall w' = wall w"
        "nwrites w' = nwrites w"
        by (auto simp: emitted_def)
      from IH have g: "prefix (trace w') (trace (snd ?r))" by blast
      have em: "emitted w (snd ?r) = emitted w w' @ emitted w' (snd ?r)"
        by (rule emitted_compose [OF w'(1) g])
      show ?thesis
        unfolding continue(1) em
        using IH w' prefix_order.trans [OF w'(1) g] by auto
    qed
  qed
qed

lemma main_loop_nsleeps:
  "nsleeps (snd (main_loop argv i hold_ms duration_ms w)) = nsleeps w"
proof (induction "length argv - i" arbitrary: i hold_ms duration_ms w rule: less_induct)
  case less
  show ?case
  proof (cases "i < length argv")
    case False
    then show ?thesis by (simp add: main_loop_done)
  next
    case True
    then show ?thesis
    proof (cases rule: main_loop_step [where hold_ms = hold_ms and duration_ms = duration_ms
          and w = w])
      case (reject s)
      then show ?thesis by simp
    next
      case (continue i' h' d' w')
      from continue(2) True have "length argv - i' < length argv - i" by simp
      note IH = less [OF this, where hold_ms = h' and duration_ms = d' and w = w']
      from continue(3) have "nsleeps w' = nsleeps w" by auto
      with IH show ?thesis
        unfolding continue(1) by simp
    qed
  qed
qed

text \<open>Without a time option the option loop leaves \<^verbatim>\<open>duration_ms\<close> as it is.\<close>

lemma timed_option_nth:
  assumes "2 \<le> i" and "i + 1 < length argv" and "argv ! i = ''-t'' \<or> argv ! i = ''--time''"
  shows "timed_option argv"
proof -
  from assms(1,2) have "i - 2 < length (butlast (drop 2 argv))" by simp
  moreover from assms(1) have "2 + (i - 2) = i" by simp
  with assms(1,2) have "butlast (drop 2 argv) ! (i - 2) = argv ! i"
    by (simp only: nth_butlast nth_drop length_butlast length_drop)
  ultimately have "argv ! i \<in> set (butlast (drop 2 argv))"
    by (metis nth_mem)
  with assms(3) show ?thesis
    unfolding timed_option_def list_ex_iff by blast
qed

lemma main_loop_bounded:
  assumes "\<not> timed_option argv"
  shows "2 \<le> i \<Longrightarrow> fst (main_loop argv i hold_ms duration_ms w) = Inr (h, d) \<Longrightarrow>
    d = duration_ms"
proof (induction "length argv - i" arbitrary: i hold_ms w rule: less_induct)
  case less
  show ?case
  proof (cases "i < length argv")
    case False
    with less.prems(2) show ?thesis by (simp add: main_loop_done)
  next
    case True
    then show ?thesis
    proof (cases rule: main_loop_step [where hold_ms = hold_ms and duration_ms = duration_ms
          and w = w])
      case (reject s)
      with less.prems(2) show ?thesis by simp
    next
      case (continue i' h' d' w')
      from continue(2) True have m: "length argv - i' < length argv - i" by simp
      from continue(2) less.prems(1) have i': "2 \<le> i'" by simp
      from continue(5) assms less.prems(1) have d': "d' = duration_ms"
        using timed_option_nth [of i argv] by blast
      from less.prems(2) have "fst (main_loop argv i' h' duration_ms w') = Inr (h, d)"
        unfolding continue(1) d' .
      from less.hyps [OF m i' this] show ?thesis .
    qed
  qed
qed

subsection \<open>The device set-up\<close>

lemma setup_uinput_device_ok:
  assumes "device_ok e"
  shows "setup_uinput_device e w =
    (Inr (open_fd e),
     w\<lparr>trace := trace w @
        [Open (open_fd e),
         Ioctl (open_fd e) (UI_SET_EVBIT EV_KEY) True,
         Ioctl (open_fd e) (UI_SET_KEYBIT BTN_LEFT) True,
         Ioctl (open_fd e) (UI_SET_KEYBIT BTN_RIGHT) True,
         WriteDev (open_fd e) virtual_mouse True,
         Ioctl (open_fd e) UI_DEV_CREATE True]\<rparr>)"
  using assms
  by (simp add: setup_uinput_device_def set_capabilities_def device_ok_def Let_def act_def)

lemma setup_uinput_device_fails:
  assumes "\<not> device_ok e"
  shows "fst (setup_uinput_device e w) = Inl (Exited EXIT_FAILURE) \<and>
    prefix (trace w) (trace (snd (setup_uinput_device e w))) \<and>
    list_all is_setup_action (emitted w (snd (setup_uinput_device e w))) \<and>
    list_ex is_diagnostic (emitted w (snd (setup_uinput_device e w))) \<and>
    hd (emitted w (snd (setup_uinput_device e w))) = Open (open_fd e) \<and>
    (if 0 \<le> open_fd e
     then last (emitted w (snd (setup_uinput_device e w))) = Close (open_fd e)
     else emitted w (snd (setup_uinput_device e w)) =
            [Open (open_fd e), Cerr ErrOpen, Cerr HelpSudo])"
  using assms
  by (auto simp: setup_uinput_device_def set_capabilities_def device_ok_def Let_def act_def
      emitted_def)

subsection \<open>The runs of main\<close>

lemma main_cases [consumes 1, case_names usage button count options device run]:
  assumes "main e argv w = Some (out, w')"
  obtains
    (usage) "length argv < 2 \<or> argv ! 1 = ''-h'' \<or> argv ! 1 = ''--help''"
      "out = Exited EXIT_FAILURE"
      "w' = print_help (case argv of [] \<Rightarrow> None | p # x \<Rightarrow> Some p) w"
  | (button) c where "BUTTONS c = None" "out = Exited EXIT_FAILURE"
      "w' = act (Cerr HelpButton) (act (Cerr (ErrInvalidButton c)) w)"
  | (count) x where "get_count argv = Inl x" "out = Terminated x" "w' = w"
  | (options) "main_loop argv 2 DEFAULT_HOLD_MS 0 w = (Inl out, w')"
  | (device) hold_ms duration_ms w1 where
      "main_loop argv 2 DEFAULT_HOLD_MS 0 w = (Inr (hold_ms, duration_ms), w1)"
      "setup_uinput_device e w1 = (Inl out, w')"
  | (run) button count hold_ms duration_ms w1 fd w2 w3 where
      "get_count argv = Inr count"
      "main_loop argv 2 DEFAULT_HOLD_MS 0 w = (Inr (hold_ms, duration_ms), w1)"
      "setup_uinput_device e w1 = (Inr fd, w2)"
      "(if 0 < duration_ms
        then perform_timed_clicks e fd button duration_ms hold_ms (click_speed_ms w2) w2
        else Some (perform_clicks e fd button count hold_ms (click_speed_ms w2) w2)) = Some w3"
      "out = Exited EXIT_SUCCESS" "w' = act (Close fd) w3"
proof (cases "length argv < 2 \<or> argv ! 1 = ''-h'' \<or> argv ! 1 = ''--help''")
  case True
  with assms show ?thesis by (intro usage) (auto simp: main_def)
next
  case False
  note no_usage = this
  let ?c = "case argv ! 1 of [] \<Rightarrow> CHR 0x00 | c # x \<Rightarrow> c"
  show ?thesis
  proof (cases "BUTTONS ?c")
    case None
    with assms no_usage show ?thesis by (intro button [of ?c]) (auto simp: main_def)
  next
    case (Some b)
    note btn = this
    show ?thesis
    proof (cases "get_count argv")
      case (Inl x)
      with assms no_usage btn show ?thesis by (intro count [of x]) (auto simp: main_def)
    next
      case (Inr n)
      note cnt = this
      obtain r w1 where ml: "main_loop argv 2 DEFAULT_HOLD_MS 0 w = (r, w1)"
        by (cases "main_loop argv 2 DEFAULT_HOLD_MS 0 w")
      show ?thesis
      proof (cases r)
        case (Inl o1)
        with assms no_usage btn cnt ml show ?thesis
          by (intro options) (auto simp: main_def)
      next
        case (Inr hd)
        obtain h d where hd: "hd = (h, d)" by (cases hd)
        note ml' = ml [unfolded Inr hd]
        obtain r2 w2 where su: "setup_uinput_device e w1 = (r2, w2)"
          by (cases "setup_uinput_device e w1")
        show ?thesis
        proof (cases r2)
          case (Inl o2)
          with assms no_usage btn cnt ml' su show ?thesis
            by (intro device [of h d w1]) (auto simp: main_def)
        next
          case (Inr fd)
          let ?run = "if 0 < d
            then perform_timed_clicks e fd b d h (click_speed_ms w2) w2
            else Some (perform_clicks e fd b n h (click_speed_ms w2) w2)"
          from assms no_usage btn cnt ml' su Inr
          have m: "(case ?run of None \<Rightarrow> None
                    | Some w3 \<Rightarrow> Some (Exited EXIT_SUCCESS, act (Close fd) w3)) = Some (out, w')"
            by (simp add: main_def)
          then obtain w3 where w3: "?run = Some w3"
            by (cases ?run) simp_all
          with m have "out = Exited EXIT_SUCCESS" "w' = act (Close fd) w3"
            by simp_all
          with cnt ml' su Inr w3 show ?thesis
            by (intro run [of n h d w1 fd w2 b w3]) simp_all
        qed
      qed
    qed
  qed
qed

text \<open>What the two drivers emit.\<close>

lemma click_body_driver_actions:
  "list_all is_driver_action
    (emitted w (send_event e fd button 0 (sleep_ms e hold_ms (send_event e fd button 1 w))))"
proof -
  let ?w1 = "send_event e fd button 1 w"
  let ?w2 = "sleep_ms e hold_ms ?w1"
  let ?w3 = "send_event e fd button 0 ?w2"
  have g1: "prefix (trace w) (trace ?w1)" by (rule grows_send_event)
  have g2: "prefix (trace ?w1) (trace ?w2)" by (rule grows_sleep_ms)
  have g3: "prefix (trace ?w2) (trace ?w3)" by (rule grows_send_event)
  have "emitted w ?w3 = emitted w ?w1 @ emitted ?w1 ?w2 @ emitted ?w2 ?w3"
    using emitted_compose [OF prefix_order.trans [OF g1 g2] g3] emitted_compose [OF g1 g2]
    by simp
  moreover have "emitted ?w1 ?w2 = [Sleep hold_ms]"
    by (rule emitted_append) simp
  moreover have "list_all is_driver_action (emitted w (send_event e fd button a w))" for a w
    by (simp add: emitted_append [OF send_event_trace])
  ultimately show ?thesis by simp
qed

lemma perform_clicks_loop_driver_actions:
  "list_all is_driver_action
    (emitted w (perform_clicks_loop e fd button count hold_ms click_speed i w))"
proof (induction e fd button count hold_ms click_speed i w rule: perform_clicks_loop.induct)
  case (1 e fd button count hold_ms click_speed i w)
  show ?case
  proof (cases "i < count")
    case False
    then show ?thesis by (simp add: perform_clicks_loop_done)
  next
    case True
    let ?w3 = "send_event e fd button 0 (sleep_ms e hold_ms (send_event e fd button 1 w))"
    let ?w4 = "if i < count - 1 then sleep_ms e click_speed ?w3 else ?w3"
    let ?w5 = "perform_clicks_loop e fd button count hold_ms click_speed (i + 1) ?w4"
    have IH: "list_all is_driver_action (emitted ?w4 ?w5)"
      using "1.IH"[OF True refl refl refl refl] .
    have g3: "prefix (trace w) (trace ?w3)" by (rule grows_click_body)
    have g4: "prefix (trace ?w3) (trace ?w4)" by simp
    have g5: "prefix (trace ?w4) (trace ?w5)" by (rule grows_perform_clicks_loop)
    have "emitted ?w3 ?w4 = (if i < count - 1 then [Sleep click_speed] else [])"
      by (simp add: emitted_append)
    then have e4: "list_all is_driver_action (emitted ?w3 ?w4)" by simp
    have "emitted w ?w5 = emitted w ?w3 @ emitted ?w3 ?w4 @ emitted ?w4 ?w5"
      using emitted_compose [OF prefix_order.trans [OF g3 g4] g5] emitted_compose [OF g3 g4]
      by simp
    then show ?thesis
      unfolding perform_clicks_loop_unfold [OF True]
      using IH e4 click_body_driver_actions [of w e fd button hold_ms] by simp
  qed
qed

lemma timed_cycle_driver_actions:
  "list_all is_driver_action (emitted w (timed_cycle e fd button hold_ms click_speed w))"
proof -
  let ?w3 = "send_event e fd button 0 (sleep_ms e hold_ms (send_event e fd button 1 w))"
  have "emitted w (sleep_ms e click_speed ?w3) = emitted w ?w3 @ emitted ?w3 (sleep_ms e click_speed ?w3)"
    by (rule emitted_compose [OF grows_click_body grows_sleep_ms])
  moreover have "emitted ?w3 (sleep_ms e click_speed ?w3) = [Sleep click_speed]"
    by (rule emitted_append) simp
  ultimately show ?thesis
    using click_body_driver_actions [of w e fd button hold_ms]
    by (simp add: timed_cycle_def)
qed

lemma cycles_driver_actions:
  "list_all is_driver_action
    (emitted w ((timed_cycle e fd button hold_ms click_speed ^^ k) w))"
proof (induction k)
  case 0
  show ?case by simp
next
  case (Suc k)
  let ?wk = "(timed_cycle e fd button hold_ms click_speed ^^ k) w"
  have "emitted w (timed_cycle e fd button hold_ms click_speed ?wk) =
      emitted w ?wk @ emitted ?wk (timed_cycle e fd button hold_ms click_speed ?wk)"
    by (rule emitted_compose [OF grows_cycles grows_timed_cycle])
  then show ?case
    using Suc timed_cycle_driver_actions [of ?wk e fd button hold_ms click_speed] by simp
qed

lemma perform_timed_clicks_driver_actions:
  assumes "perform_timed_clicks e fd button duration_ms hold_ms click_speed w = Some w'"
  shows "prefix (trace w) (trace w') \<and> list_all is_driver_action (emitted w w')"
proof -
  let ?w1 = "if debug_mode w then act (Cout (DbgTimed duration_ms hold_ms click_speed)) w else w"
  let ?cyc = "timed_cycle e fd button hold_ms click_speed"
  from assms have "perform_timed_clicks_loop e fd button (clock ?w1) duration_ms hold_ms
      click_speed ?w1 = Some w'"
    by (simp add: perform_timed_clicks_def Let_def)
  from perform_timed_clicks_loop_result [OF this] obtain k where k: "w' = (?cyc ^^ k) ?w1"
    by blast
  have g1: "prefix (trace w) (trace ?w1)" by simp
  have g2: "prefix (trace ?w1) (trace w')" unfolding k by (rule grows_cycles)
  have "emitted w w' = emitted w ?w1 @ emitted ?w1 w'"
    by (rule emitted_compose [OF g1 g2])
  moreover have "list_all is_driver_action (emitted w ?w1)" by simp
  moreover have "list_all is_driver_action (emitted ?w1 w')"
    unfolding k by (rule cycles_driver_actions)
  ultimately show ?thesis
    using prefix_order.trans [OF g1 g2] by simp
qed

lemma setup_uinput_device_Inr:
  assumes "setup_uinput_device e w = (Inr fd, w')"
  shows "device_ok e \<and> fd = open_fd e \<and> prefix (trace w) (trace w') \<and>
    emitted w w' =
      [Open fd, Ioctl fd (UI_SET_EVBIT EV_KEY) True, Ioctl fd (UI_SET_KEYBIT BTN_LEFT) True,
       Ioctl fd (UI_SET_KEYBIT BTN_RIGHT) True, WriteDev fd virtual_mouse True,
       Ioctl fd UI_DEV_CREATE True] \<and>
    clock w' = clock w \<and> debug_mode w' = debug_mode w \<and> click_speed_ms w' = click_speed_ms w"
proof (cases "device_ok e")
  case True
  from assms show ?thesis
    unfolding setup_uinput_device_ok [OF True] by (auto simp: True emitted_def)
next
  case False
  with setup_uinput_device_fails [OF False, of w] assms show ?thesis by simp
qed

lemma setup_uinput_device_Inl:
  assumes "setup_uinput_device e w = (Inl out, w')"
  shows "\<not> device_ok e \<and> out = Exited EXIT_FAILURE \<and> prefix (trace w) (trace w') \<and>
    list_all is_setup_action (emitted w w') \<and> list_ex is_diagnostic (emitted w w') \<and>
    hd (emitted w w') = Open (open_fd e) \<and>
    (if 0 \<le> open_fd e then last (emitted w w') = Close (open_fd e)
     else emitted w w' = [Open (open_fd e), Cerr ErrOpen, Cerr HelpSudo])"
proof (cases "device_ok e")
  case True
  from assms show ?thesis
    unfolding setup_uinput_device_ok [OF True] by simp
next
  case False
  from assms have w': "snd (setup_uinput_device e w) = w'"
    and out: "fst (setup_uinput_device e w) = Inl out"
    by simp_all
  from setup_uinput_device_fails [OF False, of w] False out show ?thesis
    unfolding w' by simp
qed

text \<open>The two runs of main that reach the device.\<close>

lemma main_device_run:
  assumes "main_loop argv 2 DEFAULT_HOLD_MS 0 w = (Inr (hold_ms, duration_ms), w1)"
    and "setup_uinput_device e w1 = (Inl out, w')"
  shows "prefix (trace w) (trace w') \<and> emitted w w' = emitted w w1 @ emitted w1 w' \<and>
    list_all is_parse_action (emitted w w1) \<and> list_all is_setup_action (emitted w1 w')"
proof -
  from main_loop_inv [of w argv 2 DEFAULT_HOLD_MS 0] assms(1)
  have p: "prefix (trace w) (trace w1)" "list_all is_parse_action (emitted w w1)"
    by simp_all
  from setup_uinput_device_Inl [OF assms(2)]
  have s: "prefix (trace w1) (trace w')" "list_all is_setup_action (emitted w1 w')"
    by simp_all
  show ?thesis
    using p s emitted_compose [OF p(1) s(1)] prefix_order.trans [OF p(1) s(1)] by simp
qed

lemma main_full_run:
  assumes "main_loop argv 2 DEFAULT_HOLD_MS 0 w = (Inr (hold_ms, duration_ms), w1)"
    and "setup_uinput_device e w1 = (Inr fd, w2)"
    and "(if 0 < duration_ms
        then perform_timed_clicks e fd button duration_ms hold_ms (click_speed_ms w2) w2
        else Some (perform_clicks e fd button count hold_ms (click_speed_ms w2) w2)) = Some w3"
  shows "prefix (trace w) (trace (act (Close fd) w3)) \<and>
    emitted w (act (Close fd) w3) = emitted w w1 @ emitted w1 w2 @ emitted w2 w3 @ [Close fd] \<and>
    list_all is_parse_action (emitted w w1) \<and> list_all is_setup_action (emitted w1 w2) \<and>
    list_all is_driver_action (emitted w2 w3) \<and> prefix (trace w2) (trace w3)"
proof -
  from main_loop_inv [of w argv 2 DEFAULT_HOLD_MS 0] assms(1)
  have p: "prefix (trace w) (trace w1)" "list_all is_parse_action (emitted w w1)"
    by simp_all
  from setup_uinput_device_Inr [OF assms(2)]
  have s: "prefix (trace w1) (trace w2)" "list_all is_setup_action (emitted w1 w2)"
    by simp_all
  have d: "prefix (trace w2) (trace w3) \<and> list_all is_driver_action (emitted w2 w3)"
  proof (cases "0 < duration_ms")
    case True
    with assms(3) show ?thesis by (simp add: perform_timed_clicks_driver_actions)
  next
    case False
    with assms(3) show ?thesis
      by (auto simp: perform_clicks_def grows_perform_clicks_loop
          perform_clicks_loop_driver_actions)
  qed
  have c: "prefix (trace w3) (trace (act (Close fd) w3))" by simp
  have g2: "prefix (trace w) (trace w2)" by (rule prefix_order.trans [OF p(1) s(1)])
  have g3: "prefix (trace w) (trace w3)" using g2 d by (blast intro: prefix_order.trans)
  have "emitted w (act (Close fd) w3) = emitted w w3 @ emitted w3 (act (Close fd) w3)"
    by (rule emitted_compose [OF g3 c])
  moreover have "emitted w w3 = emitted w w2 @ emitted w2 w3"
    using g2 d by (blast intro: emitted_compose)
  moreover have "emitted w w2 = emitted w w1 @ emitted w1 w2"
    by (rule emitted_compose [OF p(1) s(1)])
  ultimately show ?thesis
    using p s d prefix_order.trans [OF g3 c] by simp
qed

lemma parse_action_silent:
  "is_parse_action a \<Longrightarrow>
   \<not> is_usage a \<and> \<not> is_device_action a \<and> written a = [] \<and> step_of a = []"
  by (cases a rule: is_parse_action.cases) simp_all

lemma setup_action_silent:
  "is_setup_action a \<Longrightarrow> \<not> is_usage a \<and> written a = [] \<and> step_of a = []"
  by (cases a rule: is_setup_action.cases) simp_all

lemma driver_action_no_usage: "is_driver_action a \<Longrightarrow> \<not> is_usage a"
  by (cases a rule: is_driver_action.cases) simp_all

lemma parse_actions_silent:
  assumes "list_all is_parse_action xs"
  shows "\<not> list_ex is_usage xs \<and> \<not> list_ex is_device_action xs \<and> writes xs = [] \<and> steps xs = []"
  using assms by (induction xs) (simp_all add: parse_action_silent)

lemma setup_actions_silent:
  assumes "list_all is_setup_action xs"
  shows "\<not> list_ex is_usage xs \<and> writes xs = [] \<and> steps xs = []"
  using assms by (induction xs) (simp_all add: setup_action_silent)

lemma driver_actions_no_usage:
  assumes "list_all is_driver_action xs"
  shows "\<not> list_ex is_usage xs"
  using assms by (induction xs) (simp_all add: driver_action_no_usage)

subsection \<open>Help and device failure\<close>

text \<open>
  C7. Started with no argument, or with \<^verbatim>\<open>-h\<close> or \<^verbatim>\<open>--help\<close> as the first argument, the
  program prints the usage text and nothing else, and returns \<^verbatim>\<open>EXIT_FAILURE\<close>, which is
  not 0. No run that prints the usage text ends with another status.
\<close>

theorem main_usage_fails:
  "(length argv < 2 \<or> argv ! 1 = ''-h'' \<or> argv ! 1 = ''--help'' \<longrightarrow>
      main e argv w =
        Some (Exited EXIT_FAILURE,
              act (Cout (Usage (case argv of [] \<Rightarrow> None | p # x \<Rightarrow> Some p))) w))
   \<and> EXIT_FAILURE \<noteq> EXIT_SUCCESS
   \<and> (\<forall>out w'. main e argv w = Some (out, w') \<and> list_ex is_usage (emitted w w') \<longrightarrow>
         out = Exited EXIT_FAILURE)"
proof -
  have "out = Exited EXIT_FAILURE"
    if run: "main e argv w = Some (out, w')" and us: "list_ex is_usage (emitted w w')"
    for out w'
    using run
  proof (cases rule: main_cases)
    case usage
    show ?thesis by (rule usage(2))
  next
    case (button c)
    show ?thesis by (rule button(2))
  next
    case (count x)
    from us have False unfolding count(3) by simp
    then show ?thesis ..
  next
    case options
    from main_loop_inv [of w argv 2 DEFAULT_HOLD_MS 0]
    have "list_all is_parse_action (emitted w w')"
      unfolding options by simp
    from parse_actions_silent [OF this] us have False by simp
    then show ?thesis ..
  next
    case (device hold_ms duration_ms w1)
    from setup_uinput_device_Inl [OF device(2)] show ?thesis by simp
  next
    case (run button count hold_ms duration_ms w1 fd w2 w3)
    note r = main_full_run [OF run(2,3,4)]
    from r have em: "emitted w w' = emitted w w1 @ emitted w1 w2 @ emitted w2 w3 @ [Close fd]"
      unfolding run(6) by simp
    from r have "\<not> list_ex is_usage (emitted w w1)"
      using parse_actions_silent [of "emitted w w1"] by simp
    moreover from r have "\<not> list_ex is_usage (emitted w1 w2)"
      using setup_actions_silent [of "emitted w1 w2"] by simp
    moreover from r have "\<not> list_ex is_usage (emitted w2 w3)"
      using driver_actions_no_usage [of "emitted w2 w3"] by simp
    ultimately have False
      using us unfolding em by simp
    then show ?thesis ..
  qed
  then have no_success: "\<forall>out w'. main e argv w = Some (out, w') \<and>
      list_ex is_usage (emitted w w') \<longrightarrow> out = Exited EXIT_FAILURE"
    by blast
  have shown: "main e argv w =
      Some (Exited EXIT_FAILURE,
            act (Cout (Usage (case argv of [] \<Rightarrow> None | p # x \<Rightarrow> Some p))) w)"
    if "length argv < 2 \<or> argv ! 1 = ''-h'' \<or> argv ! 1 = ''--help''"
    using that by (simp add: main_def print_help_def)
  have "EXIT_FAILURE \<noteq> EXIT_SUCCESS"
    by (simp add: EXIT_FAILURE_def EXIT_SUCCESS_def)
  with shown no_success show ?thesis by blast
qed

theorem main_usage_fails_witness:
  "main ideal_env [''mclick''] (boot 0 0) =
     Some (Exited 1, act (Cout (Usage (Some ''mclick''))) (boot 0 0))
   \<and> main ideal_env [''mclick'', ''--help''] (boot 0 0) =
     Some (Exited 1, act (Cout (Usage (Some ''mclick''))) (boot 0 0))
   \<and> list_ex is_usage (emitted (boot 0 0) (act (Cout (Usage (Some ''mclick''))) (boot 0 0)))"
proof -
  have a: "length [''mclick''] < 2 \<or> [''mclick''] ! 1 = ''-h'' \<or> [''mclick''] ! 1 = ''--help''"
    by simp
  have b: "length [''mclick'', ''--help''] < 2 \<or> [''mclick'', ''--help''] ! 1 = ''-h'' \<or>
      [''mclick'', ''--help''] ! 1 = ''--help''"
    by simp
  note r1 = main_usage_fails [of "[''mclick'']" ideal_env "boot 0 0", THEN conjunct1, THEN mp, OF a]
  note r2 = main_usage_fails [of "[''mclick'', ''--help'']" ideal_env "boot 0 0", THEN conjunct1,
      THEN mp, OF b]
  from r1 r2 show ?thesis
    by (simp add: EXIT_FAILURE_def)
qed

lemma main_returns_without_device:
  assumes "\<not> device_ok e"
  shows "\<exists>out w'. main e argv w = Some (out, w')"
proof -
  have "setup_uinput_device e w1 \<noteq> (Inr fd, w2)" for w1 fd w2
    using setup_uinput_device_Inr [of e w1 fd w2] assms by blast
  then show ?thesis
    by (simp add: main_def Let_def split: option.splits sum.splits prod.splits)
qed

text \<open>
  C5. When a step of the device set-up fails (\<^verbatim>\<open>open\<close>, one of the capability ioctls, the
  write of the descriptor, the creation ioctl), \<^verbatim>\<open>setup_uinput_device\<close> prints a diagnostic
  and exits with \<^verbatim>\<open>EXIT_FAILURE\<close>; it writes no event; when \<^verbatim>\<open>open\<close> had succeeded its
  last call is the \<^verbatim>\<open>close\<close> of that descriptor, and when \<^verbatim>\<open>open\<close> failed nothing is
  closed. So with such a device every run of \<^verbatim>\<open>main\<close> ends, never with status 0, and
  without the write of an event.
\<close>

theorem setup_failure_exits:
  assumes "\<not> device_ok e"
  shows "fst (setup_uinput_device e w) = Inl (Exited EXIT_FAILURE)
    \<and> EXIT_FAILURE \<noteq> 0
    \<and> list_ex is_diagnostic (emitted w (snd (setup_uinput_device e w)))
    \<and> writes (emitted w (snd (setup_uinput_device e w))) = []
    \<and> (0 \<le> open_fd e \<longrightarrow>
         last (emitted w (snd (setup_uinput_device e w))) = Close (open_fd e))
    \<and> (open_fd e < 0 \<longrightarrow>
         emitted w (snd (setup_uinput_device e w)) =
           [Open (open_fd e), Cerr ErrOpen, Cerr HelpSudo])
    \<and> (\<exists>out w'. main e argv w = Some (out, w')
          \<and> out \<noteq> Exited EXIT_SUCCESS
          \<and> writes (emitted w w') = [])"
proof -
  note f = setup_uinput_device_fails [OF assms, of w]
  from main_returns_without_device [OF assms] obtain out w' where
    m: "main e argv w = Some (out, w')"
    by blast
  have "out \<noteq> Exited EXIT_SUCCESS \<and> writes (emitted w w') = []"
    using m
  proof (cases rule: main_cases)
    case usage
    then show ?thesis
      by (simp add: print_help_def EXIT_FAILURE_def EXIT_SUCCESS_def)
  next
    case (button c)
    then show ?thesis
      by (simp add: emitted_def EXIT_FAILURE_def EXIT_SUCCESS_def)
  next
    case (count x)
    then show ?thesis by simp
  next
    case options
    with main_loop_inv [of w argv 2 DEFAULT_HOLD_MS 0]
    show ?thesis
      using parse_actions_silent [of "emitted w w'"]
      by (simp add: EXIT_FAILURE_def EXIT_SUCCESS_def)
  next
    case (device hold_ms duration_ms w1)
    from main_device_run [OF device] setup_uinput_device_Inl [OF device(2)]
    show ?thesis
      using parse_actions_silent [of "emitted w w1"] setup_actions_silent [of "emitted w1 w'"]
      by (simp add: EXIT_FAILURE_def EXIT_SUCCESS_def)
  next
    case (run button count hold_ms duration_ms w1 fd w2 w3)
    with setup_uinput_device_Inr [OF run(3)] assms show ?thesis by simp
  qed
  with m have "\<exists>out w'. main e argv w = Some (out, w') \<and> out \<noteq> Exited EXIT_SUCCESS \<and>
      writes (emitted w w') = []"
    by blast
  moreover have "writes (emitted w (snd (setup_uinput_device e w))) = []"
    using f setup_actions_silent [of "emitted w (snd (setup_uinput_device e w))"] by simp
  moreover have "EXIT_FAILURE \<noteq> 0" by (simp add: EXIT_FAILURE_def)
  moreover have "0 \<le> open_fd e \<longrightarrow>
      last (emitted w (snd (setup_uinput_device e w))) = Close (open_fd e)"
    using f by simp
  moreover have "open_fd e < 0 \<longrightarrow>
      emitted w (snd (setup_uinput_device e w)) = [Open (open_fd e), Cerr ErrOpen, Cerr HelpSudo]"
    using f by simp
  ultimately show ?thesis
    using f by blast
qed

theorem setup_failure_exits_witness:
  "fst (setup_uinput_device no_device (boot 0 0)) = Inl (Exited 1)
   \<and> emitted (boot 0 0) (snd (setup_uinput_device no_device (boot 0 0))) =
       [Open (- 1), Cerr ErrOpen, Cerr HelpSudo]
   \<and> last (emitted (boot 0 0) (snd (setup_uinput_device create_fails (boot 0 0)))) = Close 3
   \<and> (\<exists>out w'. main no_device [''mclick'', ''l''] (boot 0 0) = Some (out, w')
         \<and> out \<noteq> Exited 0 \<and> writes (emitted (boot 0 0) w') = [])"
proof -
  have nd: "\<not> device_ok no_device"
    by (simp add: device_ok_def no_device_def ideal_env_def)
  have cf: "\<not> device_ok create_fails"
    by (simp add: device_ok_def create_fails_def ideal_env_def)
  note t = setup_failure_exits [OF nd, of "boot 0 0" "[''mclick'', ''l'']"]
  note u = setup_failure_exits [OF cf, of "boot 0 0" "[]"]
  have "open_fd no_device = - 1" "open_fd create_fails = 3"
    by (simp_all add: no_device_def create_fails_def ideal_env_def)
  with t u show ?thesis
    by (simp add: EXIT_FAILURE_def EXIT_SUCCESS_def)
qed

subsection \<open>Failed writes\<close>

lemma perform_clicks_steps:
  "steps (emitted w (perform_clicks e fd button count hold_ms click_speed w)) =
     (if 0 < count then
        concat (replicate (nat (count - 1))
                  (click_steps (word_of_int button) hold_ms @ [Pause click_speed]))
        @ click_steps (word_of_int button) hold_ms
      else [])"
  unfolding perform_clicks_def
  by (rule steps_emitted [OF grows_perform_clicks_loop]) (simp add: perform_clicks_loop_steps)

text \<open>A timed run depends on the lags of its sleeps, and on nothing else of the
  environment.\<close>

lemma perform_timed_clicks_transfer:
  assumes "perform_timed_clicks e1 fd1 button duration_ms hold_ms click_speed w1 = Some w1'"
    and "lag e1 = lag e2" and "nsleeps w1 = nsleeps w2"
  shows "\<exists>w2'. perform_timed_clicks e2 fd2 button duration_ms hold_ms click_speed w2 = Some w2' \<and>
           steps (emitted w2 w2') = steps (emitted w1 w1')"
proof -
  let ?c = "cycle_time hold_ms click_speed"
  let ?cyc = "click_steps (word_of_int button) hold_ms @ [Pause click_speed]"
  from perform_timed_clicks_result [OF assms(1)] obtain k where
    k: "prefix (trace w1) (trace w1')"
       "steps (trace w1') = steps (trace w1) @ concat (replicate k ?cyc)"
       "\<forall>j<k. int j * ?c + int (lag_sum e1 (nsleeps w1) (2 * j)) < duration_ms"
       "duration_ms \<le> int k * ?c + int (lag_sum e1 (nsleeps w1) (2 * k))"
    by blast
  have l: "lag_sum e1 (nsleeps w1) m = lag_sum e2 (nsleeps w2) m" for m
    unfolding assms(3) by (rule lag_sum_cong [OF assms(2)])
  from k(3) have "\<forall>j<k. int j * ?c + int (lag_sum e2 (nsleeps w2) (2 * j)) < duration_ms"
    unfolding l .
  moreover from k(4) have "duration_ms \<le> int k * ?c + int (lag_sum e2 (nsleeps w2) (2 * k))"
    unfolding l .
  ultimately obtain w2' where
    r: "perform_timed_clicks e2 fd2 button duration_ms hold_ms click_speed w2 = Some w2'"
       "steps (emitted w2 w2') = concat (replicate k ?cyc)"
    using perform_timed_clicks_complete [of k hold_ms click_speed e2 w2 duration_ms fd2 button]
    by blast
  have "steps (emitted w1 w1') = concat (replicate k ?cyc)"
    by (rule steps_emitted [OF k(1,2)])
  with r show ?thesis by simp
qed

lemma perform_timed_clicks_observable:
  assumes "lag e1 = lag e2" and "nsleeps w1 = nsleeps w2"
  shows "map_option (\<lambda>w'. steps (emitted w1 w'))
     (perform_timed_clicks e1 fd1 button duration_ms hold_ms click_speed w1) =
   map_option (\<lambda>w'. steps (emitted w2 w'))
     (perform_timed_clicks e2 fd2 button duration_ms hold_ms click_speed w2)"
proof (cases "perform_timed_clicks e1 fd1 button duration_ms hold_ms click_speed w1")
  case (Some w1')
  from perform_timed_clicks_transfer [OF Some assms, of fd2] obtain w2' where
    "perform_timed_clicks e2 fd2 button duration_ms hold_ms click_speed w2 = Some w2'"
    "steps (emitted w2 w2') = steps (emitted w1 w1')"
    by blast
  with Some show ?thesis by simp
next
  case None
  have "perform_timed_clicks e2 fd2 button duration_ms hold_ms click_speed w2 = None"
  proof (cases "perform_timed_clicks e2 fd2 button duration_ms hold_ms click_speed w2")
    case (Some w2')
    from perform_timed_clicks_transfer [OF Some assms(1) [symmetric] assms(2) [symmetric], of fd1]
    show ?thesis using None by simp
  qed simp
  with None show ?thesis by simp
qed

lemma exact_clock_lag: "exact_clock e1 \<Longrightarrow> exact_clock e2 \<Longrightarrow> lag e1 = lag e2"
  by (auto simp: exact_clock_def)

lemma exact_clock_ideal_env: "exact_clock ideal_env"
  by (simp add: exact_clock_def ideal_env_def)

lemma main_writes_then_success:
  assumes "main e argv w = Some (out, w')" and "writes (emitted w w') \<noteq> []"
  shows "out = Exited EXIT_SUCCESS"
  using assms(1)
proof (cases rule: main_cases)
  case usage
  with assms(2) show ?thesis by (simp add: print_help_def)
next
  case (button c)
  with assms(2) show ?thesis by (simp add: emitted_def)
next
  case (count x)
  with assms(2) show ?thesis by simp
next
  case options
  from main_loop_inv [of w argv 2 DEFAULT_HOLD_MS 0]
  have "list_all is_parse_action (emitted w w')"
    unfolding options by simp
  from parse_actions_silent [OF this] assms(2) show ?thesis by simp
next
  case (device hold_ms duration_ms w1)
  from main_device_run [OF device]
  have "emitted w w' = emitted w w1 @ emitted w1 w'" "writes (emitted w w1) = []"
    "writes (emitted w1 w') = []"
    using parse_actions_silent [of "emitted w w1"] setup_actions_silent [of "emitted w1 w'"]
    by simp_all
  with assms(2) show ?thesis by simp
next
  case (run button count hold_ms duration_ms w1 fd w2 w3)
  show ?thesis by (rule run(5))
qed

text \<open>
  C3, as the code has it. When the write of an event fails, key event or not,
  \<^verbatim>\<open>send_input_event\<close> prints the error and returns, and that is all: a bounded run and a
  timed run go through the same presses, releases, reports and sleeps as with a device
  where every write succeeds (and the timed run returns in the same cases), and every run
  of \<^verbatim>\<open>main\<close> that has handed an event to \<^verbatim>\<open>write\<close> ends with \<^verbatim>\<open>EXIT_SUCCESS\<close>. For the
  timed run the device where every write succeeds is the same environment with its
  writes succeeding, so with the same lags; on an exact clock it is \<open>ideal_env\<close> as well.
\<close>

theorem failed_write_goes_on:
  "(\<not> write_ok e (nwrites w) \<longrightarrow>
      send_input_event e fd ty c v w =
        act (Cerr ErrSendEvent)
          ((act (WriteEvent fd \<lparr>ie_time = wall w, ie_type = ty, ie_code = c, ie_value = v\<rparr> False) w)
             \<lparr>nwrites := Suc (nwrites w)\<rparr>))
   \<and> steps (emitted w (perform_clicks e fd button N H D w)) =
       steps (emitted w (perform_clicks ideal_env fd button N H D w))
   \<and> map_option (\<lambda>w'. steps (emitted w w')) (perform_timed_clicks e fd button B H D w) =
       map_option (\<lambda>w'. steps (emitted w w'))
         (perform_timed_clicks (e\<lparr>write_ok := (\<lambda>n. True)\<rparr>) fd button B H D w)
   \<and> (exact_clock e \<longrightarrow>
        map_option (\<lambda>w'. steps (emitted w w')) (perform_timed_clicks e fd button B H D w) =
        map_option (\<lambda>w'. steps (emitted w w')) (perform_timed_clicks ideal_env fd button B H D w))
   \<and> (\<forall>out w'. main e argv w = Some (out, w') \<and> writes (emitted w w') \<noteq> [] \<longrightarrow>
         out = Exited EXIT_SUCCESS)"
proof -
  have "send_input_event e fd ty c v w =
        act (Cerr ErrSendEvent)
          ((act (WriteEvent fd \<lparr>ie_time = wall w, ie_type = ty, ie_code = c, ie_value = v\<rparr> False) w)
             \<lparr>nwrites := Suc (nwrites w)\<rparr>)"
    if "\<not> write_ok e (nwrites w)"
    using that by (simp add: send_input_event_def Let_def)
  moreover have "steps (emitted w (perform_clicks e fd button N H D w)) =
       steps (emitted w (perform_clicks ideal_env fd button N H D w))"
    by (simp only: perform_clicks_steps)
  moreover have "map_option (\<lambda>w'. steps (emitted w w')) (perform_timed_clicks e fd button B H D w) =
       map_option (\<lambda>w'. steps (emitted w w'))
         (perform_timed_clicks (e\<lparr>write_ok := (\<lambda>n. True)\<rparr>) fd button B H D w)"
    by (rule perform_timed_clicks_observable) simp_all
  moreover have "exact_clock e \<longrightarrow>
        map_option (\<lambda>w'. steps (emitted w w')) (perform_timed_clicks e fd button B H D w) =
        map_option (\<lambda>w'. steps (emitted w w')) (perform_timed_clicks ideal_env fd button B H D w)"
  proof
    assume "exact_clock e"
    then have "lag e = lag ideal_env"
      using exact_clock_ideal_env by (rule exact_clock_lag)
    then show "map_option (\<lambda>w'. steps (emitted w w')) (perform_timed_clicks e fd button B H D w) =
        map_option (\<lambda>w'. steps (emitted w w')) (perform_timed_clicks ideal_env fd button B H D w)"
      by (rule perform_timed_clicks_observable) simp
  qed
  moreover have "\<forall>out w'. main e argv w = Some (out, w') \<and> writes (emitted w w') \<noteq> [] \<longrightarrow>
      out = Exited EXIT_SUCCESS"
    using main_writes_then_success by blast
  ultimately show ?thesis by blast
qed

lemma get_count_two: "get_count [''mclick'', ''l'', ''2''] = Inr 2"
  by (simp add: stoi_def isspace_def isdigit_def digits_val_def digit_val_def INT_MAX_def
      INT_MIN_def)

lemma main_loop_no_option: "main_loop [''mclick'', ''l'', ''2''] 2 h d w = (Inr (h, d), w)"
  by (simp add: main_loop.simps)

lemma device_ok_first_write_fails: "device_ok first_write_fails"
  by (simp add: device_ok_def first_write_fails_def ideal_env_def)

lemma main_first_write_fails:
  "main first_write_fails [''mclick'', ''l'', ''2''] (boot 0 0) =
     Some (Exited EXIT_SUCCESS,
       act (Close 3)
         (perform_clicks first_write_fails 3 BTN_LEFT 2 120 120
           ((boot 0 0)\<lparr>trace :=
              [Open 3, Ioctl 3 (UI_SET_EVBIT EV_KEY) True, Ioctl 3 (UI_SET_KEYBIT BTN_LEFT) True,
               Ioctl 3 (UI_SET_KEYBIT BTN_RIGHT) True, WriteDev 3 virtual_mouse True,
               Ioctl 3 UI_DEV_CREATE True]\<rparr>)))"
proof -
  have fd: "open_fd first_write_fails = 3"
    by (simp add: first_write_fails_def ideal_env_def)
  show ?thesis
    by (simp add: main_def Let_def get_count_two main_loop_no_option BUTTONS_def
        setup_uinput_device_ok [OF device_ok_first_write_fails] fd
        DEFAULT_HOLD_MS_def del: get_count.simps)
       (simp add: boot_def DEFAULT_CLICK_SPEED_MS_def)
qed

lemma perform_clicks_first_write_fails:
  "nwrites w = 0 \<Longrightarrow>
   map snd (writes (emitted w (perform_clicks first_write_fails 3 BTN_LEFT 2 120 120 w))) =
     [False, True, True, True, True, True, True, True]"
  by (simp add: perform_clicks_def perform_clicks_loop.simps send_event_trace emitted_def
      first_write_fails_def ideal_env_def Let_def)

lemma first_write_fails_run:
  "map_option fst (main first_write_fails [''mclick'', ''l'', ''2''] (boot 0 0)) = Some (Exited 0)
   \<and> map_option (map snd \<circ> writes \<circ> trace \<circ> snd)
       (main first_write_fails [''mclick'', ''l'', ''2''] (boot 0 0)) =
       Some [False, True, True, True, True, True, True, True]
   \<and> map_option (steps \<circ> trace \<circ> snd)
       (main first_write_fails [''mclick'', ''l'', ''2''] (boot 0 0)) =
       Some [Press 272, Sync, Pause 120, Release 272, Sync, Pause 120,
             Press 272, Sync, Pause 120, Release 272, Sync]"
proof -
  let ?w2 = "(boot 0 0)\<lparr>trace :=
      [Open 3, Ioctl 3 (UI_SET_EVBIT EV_KEY) True, Ioctl 3 (UI_SET_KEYBIT BTN_LEFT) True,
       Ioctl 3 (UI_SET_KEYBIT BTN_RIGHT) True, WriteDev 3 virtual_mouse True,
       Ioctl 3 UI_DEV_CREATE True]\<rparr>"
  let ?w3 = "perform_clicks first_write_fails 3 BTN_LEFT 2 120 120 ?w2"
  have g: "prefix (trace ?w2) (trace ?w3)"
    unfolding perform_clicks_def by (rule grows_perform_clicks_loop)
  have tr: "trace ?w3 = trace ?w2 @ emitted ?w2 ?w3"
    by (rule prefix_emitted [OF g])
  have w: "map snd (writes (emitted ?w2 ?w3)) = [False, True, True, True, True, True, True, True]"
    by (rule perform_clicks_first_write_fails) (simp add: boot_def)
  have s: "steps (emitted ?w2 ?w3) =
      [Press 272, Sync, Pause 120, Release 272, Sync, Pause 120,
       Press 272, Sync, Pause 120, Release 272, Sync]"
    by (simp add: perform_clicks_steps click_steps_def BTN_LEFT_def)
  show ?thesis
    unfolding main_first_write_fails
    by (simp add: tr w s EXIT_SUCCESS_def)
qed

theorem failed_write_goes_on_counterexample:
  "map_option fst (main first_write_fails [''mclick'', ''l'', ''2''] (boot 0 0)) = Some (Exited 0)
   \<and> map_option (map snd \<circ> writes \<circ> trace \<circ> snd)
       (main first_write_fails [''mclick'', ''l'', ''2''] (boot 0 0)) =
       Some [False, True, True, True, True, True, True, True]
   \<and> map_option (steps \<circ> trace \<circ> snd)
       (main first_write_fails [''mclick'', ''l'', ''2''] (boot 0 0)) =
       Some [Press 272, Sync, Pause 120, Release 272, Sync, Pause 120,
             Press 272, Sync, Pause 120, Release 272, Sync]"
  by (rule first_write_fails_run)

theorem failed_write_goes_on_witness:
  "send_input_event first_write_fails 3 EV_KEY 272 1 (boot 0 0) =
     act (Cerr ErrSendEvent)
       ((act (WriteEvent 3 \<lparr>ie_time = 0, ie_type = EV_KEY, ie_code = 272, ie_value = 1\<rparr> False)
          (boot 0 0))\<lparr>nwrites := 1\<rparr>)
   \<and> writes (emitted (boot 0 0)
        (snd (the (main first_write_fails [''mclick'', ''l'', ''2''] (boot 0 0))))) \<noteq> []
   \<and> fst (the (main first_write_fails [''mclick'', ''l'', ''2''] (boot 0 0))) = Exited EXIT_SUCCESS"
proof -
  note t = failed_write_goes_on [of first_write_fails "boot 0 0" 3 EV_KEY 272 1 0 0 0 0 0
      "[''mclick'', ''l'', ''2'']"]
  have nw: "\<not> write_ok first_write_fails (nwrites (boot 0 0))"
    by (simp add: first_write_fails_def ideal_env_def boot_def)
  from t [THEN conjunct1, THEN mp, OF nw]
  have a: "send_input_event first_write_fails 3 EV_KEY 272 1 (boot 0 0) =
     act (Cerr ErrSendEvent)
       ((act (WriteEvent 3 \<lparr>ie_time = 0, ie_type = EV_KEY, ie_code = 272, ie_value = 1\<rparr> False)
          (boot 0 0))\<lparr>nwrites := 1\<rparr>)"
    by (simp add: boot_def)
  obtain out w' where m: "main first_write_fails [''mclick'', ''l'', ''2''] (boot 0 0) = Some (out, w')"
    using main_first_write_fails by blast
  have "map_option (map snd \<circ> writes \<circ> trace \<circ> snd)
       (main first_write_fails [''mclick'', ''l'', ''2''] (boot 0 0)) =
       Some [False, True, True, True, True, True, True, True]"
    using first_write_fails_run by blast
  then have b: "writes (emitted (boot 0 0) w') \<noteq> []"
    unfolding m by (auto simp: emitted_def boot_def)
  from t [THEN conjunct2, THEN conjunct2, THEN conjunct2] m b
  have "out = Exited EXIT_SUCCESS" by blast
  with a b m show ?thesis by simp
qed

subsection \<open>Durations that are not taken\<close>
















subsection \<open>Two runs with the same arguments\<close>

text \<open>The option loop reads the world only in the two globals.\<close>

lemma main_loop_config:
  assumes "debug_mode w1 = debug_mode w2" and "click_speed_ms w1 = click_speed_ms w2"
  shows "fst (main_loop argv i hold_ms duration_ms w1) =
         fst (main_loop argv i hold_ms duration_ms w2) \<and>
    debug_mode (snd (main_loop argv i hold_ms duration_ms w1)) =
      debug_mode (snd (main_loop argv i hold_ms duration_ms w2)) \<and>
    click_speed_ms (snd (main_loop argv i hold_ms duration_ms w1)) =
      click_speed_ms (snd (main_loop argv i hold_ms duration_ms w2))"
  using assms
proof (induction "length argv - i" arbitrary: i hold_ms duration_ms w1 w2 rule: less_induct)
  case less
  note cfg = less.prems
  show ?case
  proof (cases "i < length argv")
    case False
    with cfg show ?thesis by (simp add: main_loop_done)
  next
    case True
    then have m1: "length argv - (i + 1) < length argv - i"
      and m2: "i + 1 < length argv \<Longrightarrow> length argv - (i + 2) < length argv - i"
      by simp_all
    consider (debug) "argv ! i = ''-d'' \<or> argv ! i = ''--debug''"
      | (hold) "i + 1 < length argv" "argv ! i = ''-h'' \<or> argv ! i = ''--hold''"
      | (clickspeed) "i + 1 < length argv" "argv ! i = ''-cs'' \<or> argv ! i = ''--clickspeed''"
      | (time) "i + 1 < length argv" "argv ! i = ''-t'' \<or> argv ! i = ''--time''"
      | (other) "argv ! i \<noteq> ''-d''" "argv ! i \<noteq> ''--debug''"
          "\<not> (argv ! i \<in> {''-h'', ''--hold'', ''-cs'', ''--clickspeed'', ''-t'', ''--time''} \<and>
             i + 1 < length argv)"
      by blast
    then show ?thesis
    proof cases
      case debug
      show ?thesis
        unfolding main_loop_debug [OF True debug]
        by (rule less.hyps [OF m1]) (simp_all add: cfg)
    next
      case hold
      show ?thesis
      proof (cases "argv ! (i + 1)" rule: parse_duration_cases)
        case bad
        show ?thesis
          unfolding main_loop_hold [OF hold bad(2)] using cfg by simp
      next
        case (good v)
        show ?thesis
          unfolding main_loop_hold [OF hold good(2)] sum.case
          by (rule less.hyps [OF m2 [OF hold(1)] cfg])
      qed
    next
      case clickspeed
      show ?thesis
      proof (cases "argv ! (i + 1)" rule: parse_duration_cases)
        case bad
        show ?thesis
          unfolding main_loop_clickspeed [OF clickspeed bad(2)] using cfg by simp
      next
        case (good v)
        show ?thesis
          unfolding main_loop_clickspeed [OF clickspeed good(2)] sum.case
          by (rule less.hyps [OF m2 [OF clickspeed(1)]]) (simp_all add: cfg)
      qed
    next
      case time
      show ?thesis
      proof (cases argv "argv ! i" rule: get_duration_cases)
        case (bad s)
        show ?thesis
          unfolding main_loop_time [OF time bad] using cfg by simp
      next
        case (good v)
        show ?thesis
          unfolding main_loop_time [OF time good] sum.case
          by (rule less.hyps [OF m1 cfg])
      qed
    next
      case other
      show ?thesis
        unfolding main_loop_other [OF True other]
        by (rule less.hyps [OF m1 cfg])
    qed
  qed
qed

lemma main_after_options:
  assumes "\<not> (length argv < 2 \<or> argv ! 1 = ''-h'' \<or> argv ! 1 = ''--help'')"
    and "BUTTONS (case argv ! 1 of [] \<Rightarrow> CHR 0x00 | c # x \<Rightarrow> c) = Some button"
    and "get_count argv = Inr count"
    and "main_loop argv 2 DEFAULT_HOLD_MS 0 w = (Inr (hold_ms, duration_ms), w1)"
  shows "main e argv w =
    (case setup_uinput_device e w1 of
       (Inl out, w2) \<Rightarrow> Some (out, w2)
     | (Inr fd, w2) \<Rightarrow>
        (case (if 0 < duration_ms
               then perform_timed_clicks e fd button duration_ms hold_ms (click_speed_ms w2) w2
               else Some (perform_clicks e fd button count hold_ms (click_speed_ms w2) w2)) of
           None \<Rightarrow> None
         | Some w3 \<Rightarrow> Some (Exited EXIT_SUCCESS, act (Close fd) w3)))"
  using assms by (simp add: main_def Let_def)


lemma main_options_reject:
  assumes "\<not> (length argv < 2 \<or> argv ! 1 = ''-h'' \<or> argv ! 1 = ''--help'')"
    and "BUTTONS (case argv ! 1 of [] \<Rightarrow> CHR 0x00 | c # x \<Rightarrow> c) = Some button"
    and "get_count argv = Inr count"
    and "main_loop argv 2 DEFAULT_HOLD_MS 0 w = (Inl out, w1)"
  shows "main e argv w = Some (out, w1)"
  using assms by (simp add: main_def Let_def)

text \<open>The shape of the drivers' part of a run.\<close>

lemma driver_shape:
  assumes "steps (trace w1) = steps (trace w2)"
    and "\<not> 0 < duration_ms \<or> lag e1 = lag e2 \<and> nsleeps w1 = nsleeps w2"
  shows "shape (case (if 0 < duration_ms
               then perform_timed_clicks e1 fd1 button duration_ms hold_ms click_speed w1
               else Some (perform_clicks e1 fd1 button count hold_ms click_speed w1)) of
           None \<Rightarrow> None
         | Some w3 \<Rightarrow> Some (Exited EXIT_SUCCESS, act (Close fd1) w3)) =
     shape (case (if 0 < duration_ms
               then perform_timed_clicks e2 fd2 button duration_ms hold_ms click_speed w2
               else Some (perform_clicks e2 fd2 button count hold_ms click_speed w2)) of
           None \<Rightarrow> None
         | Some w3 \<Rightarrow> Some (Exited EXIT_SUCCESS, act (Close fd2) w3))"
proof (cases "0 < duration_ms")
  case False
  let ?p1 = "perform_clicks e1 fd1 button count hold_ms click_speed w1"
  let ?p2 = "perform_clicks e2 fd2 button count hold_ms click_speed w2"
  have g1: "prefix (trace w1) (trace ?p1)" and g2: "prefix (trace w2) (trace ?p2)"
    unfolding perform_clicks_def by (rule grows_perform_clicks_loop)+
  note prefix_emitted [OF g1, THEN arg_cong [where f = steps], unfolded steps_append]
    prefix_emitted [OF g2, THEN arg_cong [where f = steps], unfolded steps_append]
  then have "steps (trace ?p1) = steps (trace ?p2)"
    unfolding perform_clicks_steps assms(1) by simp
  with False show ?thesis
    by (simp add: shape_def)
next
  case True
  let ?t1 = "perform_timed_clicks e1 fd1 button duration_ms hold_ms click_speed w1"
  let ?t2 = "perform_timed_clicks e2 fd2 button duration_ms hold_ms click_speed w2"
  from True assms(2) have same: "lag e1 = lag e2" "nsleeps w1 = nsleeps w2"
    by simp_all
  note obs = perform_timed_clicks_observable
    [OF same, of fd1 button duration_ms hold_ms click_speed fd2]
  show ?thesis
  proof (cases ?t1)
    case None
    with obs have "?t2 = None" by simp
    with None True show ?thesis by (simp add: shape_def)
  next
    case (Some w1')
    with obs obtain w2' where t2: "?t2 = Some w2'"
      by (cases ?t2) simp_all
    from obs have em: "steps (emitted w1 w1') = steps (emitted w2 w2')"
      unfolding Some t2 by simp
    from perform_timed_clicks_driver_actions [OF Some]
    have g1: "prefix (trace w1) (trace w1')" by simp
    from perform_timed_clicks_driver_actions [OF t2]
    have g2: "prefix (trace w2) (trace w2')" by simp
    note prefix_emitted [OF g1, THEN arg_cong [where f = steps], unfolded steps_append]
      prefix_emitted [OF g2, THEN arg_cong [where f = steps], unfolded steps_append]
    then have "steps (trace w1') = steps (trace w2')"
      unfolding em assms(1) by simp
    with True show ?thesis
      unfolding Some t2 by (simp add: shape_def)
  qed
qed

lemma setup_uinput_device_nsleeps:
  "nsleeps (snd (setup_uinput_device e w)) = nsleeps w"
  by (simp add: setup_uinput_device_def set_capabilities_def Let_def)

lemma setup_uinput_device_steps:
  "steps (trace (snd (setup_uinput_device e w))) = steps (trace w) \<and>
   click_speed_ms (snd (setup_uinput_device e w)) = click_speed_ms w"
proof (cases "device_ok e")
  case True
  show ?thesis
    unfolding setup_uinput_device_ok [OF True] by simp
next
  case False
  note f = setup_uinput_device_fails [OF False, of w]
  from f have "steps (emitted w (snd (setup_uinput_device e w))) = []"
    using setup_actions_silent by blast
  moreover from f have "prefix (trace w) (trace (snd (setup_uinput_device e w)))"
    by simp
  note prefix_emitted [OF this, THEN arg_cong [where f = steps], unfolded steps_append]
  ultimately have "steps (trace (snd (setup_uinput_device e w))) = steps (trace w)"
    by simp
  moreover have "click_speed_ms (snd (setup_uinput_device e w)) = click_speed_ms w"
    by (simp add: setup_uinput_device_def set_capabilities_def Let_def)
  ultimately show ?thesis by simp
qed

lemma device_phase_shape:
  assumes "steps (trace w1) = steps (trace w2)"
    and "click_speed_ms w1 = click_speed_ms w2"
    and "device_ok e1 \<longleftrightarrow> device_ok e2"
    and "nsleeps w1 = nsleeps w2"
    and "\<not> 0 < duration_ms \<or> lag e1 = lag e2"
  shows "shape (case setup_uinput_device e1 w1 of
       (Inl out, w2) \<Rightarrow> Some (out, w2)
     | (Inr fd, w2) \<Rightarrow>
        (case (if 0 < duration_ms
               then perform_timed_clicks e1 fd button duration_ms hold_ms (click_speed_ms w2) w2
               else Some (perform_clicks e1 fd button count hold_ms (click_speed_ms w2) w2)) of
           None \<Rightarrow> None
         | Some w3 \<Rightarrow> Some (Exited EXIT_SUCCESS, act (Close fd) w3))) =
    shape (case setup_uinput_device e2 w2 of
       (Inl out, w2) \<Rightarrow> Some (out, w2)
     | (Inr fd, w2) \<Rightarrow>
        (case (if 0 < duration_ms
               then perform_timed_clicks e2 fd button duration_ms hold_ms (click_speed_ms w2) w2
               else Some (perform_clicks e2 fd button count hold_ms (click_speed_ms w2) w2)) of
           None \<Rightarrow> None
         | Some w3 \<Rightarrow> Some (Exited EXIT_SUCCESS, act (Close fd) w3)))"
proof -
  obtain r1 u1 where s1: "setup_uinput_device e1 w1 = (r1, u1)"
    by (cases "setup_uinput_device e1 w1")
  obtain r2 u2 where s2: "setup_uinput_device e2 w2 = (r2, u2)"
    by (cases "setup_uinput_device e2 w2")
  from setup_uinput_device_steps [of e1 w1] setup_uinput_device_steps [of e2 w2]
  have u: "steps (trace u1) = steps (trace u2)" "click_speed_ms u1 = click_speed_ms u2"
    unfolding s1 s2 using assms(1,2) by simp_all
  from setup_uinput_device_nsleeps [of e1 w1] setup_uinput_device_nsleeps [of e2 w2]
  have "nsleeps u1 = nsleeps u2"
    unfolding s1 s2 using assms(4) by simp
  with assms(5) have same: "\<not> 0 < duration_ms \<or> lag e1 = lag e2 \<and> nsleeps u1 = nsleeps u2"
    by blast
  show ?thesis
  proof (cases "device_ok e1")
    case True
    with assms(3) have ok2: "device_ok e2" by simp
    from s1 s2 have r: "r1 = Inr (open_fd e1)" "r2 = Inr (open_fd e2)"
      unfolding setup_uinput_device_ok [OF True] setup_uinput_device_ok [OF ok2] by simp_all
    show ?thesis
      unfolding s1 s2 r prod.case sum.case u(2)
      by (rule driver_shape [OF u(1) same])
  next
    case False
    with assms(3) have f2: "\<not> device_ok e2" by simp
    from setup_uinput_device_fails [OF False, of w1] setup_uinput_device_fails [OF f2, of w2]
    have "r1 = Inl (Exited EXIT_FAILURE)" "r2 = Inl (Exited EXIT_FAILURE)"
      unfolding s1 s2 by simp_all
    then show ?thesis
      unfolding s1 s2 by (simp add: shape_def u(1))
  qed
qed

text \<open>A timed run of 300 milliseconds on the exact clock, and on the clock where every
  sleep is 30 milliseconds late: the second pass of the first is not made by the
  second.\<close>

lemma get_count_time_300: "get_count [''mclick'', ''l'', ''-t'', ''300''] = Inr 300"
  by (simp add: stoi_def isspace_def isdigit_def digits_val_def digit_val_def INT_MAX_def
      INT_MIN_def)

lemma parse_duration_300: "parse_duration ''300'' w = (Inr 300, w)"
  by (simp add: parse_duration_def stoi_def isspace_def isdigit_def digits_val_def digit_val_def
      INT_MAX_def INT_MIN_def)

lemma main_loop_time_300:
  "main_loop [''mclick'', ''l'', ''-t'', ''300''] 2 h d w = (Inr (h, 300), w)"
  by (simp add: main_loop.simps parse_duration_300)

lemma perform_timed_clicks_300_exact:
  "\<not> debug_mode w \<Longrightarrow>
   perform_timed_clicks ideal_env fd button 300 120 120 w =
     Some (timed_cycle ideal_env fd button 120 120 (timed_cycle ideal_env fd button 120 120 w))"
  by (simp add: perform_timed_clicks_def perform_timed_clicks_loop.simps cycle_time_def
      ideal_env_def)

lemma perform_timed_clicks_300_late:
  "\<not> debug_mode w \<Longrightarrow>
   perform_timed_clicks late_env fd button 300 120 120 w =
     Some (timed_cycle late_env fd button 120 120 w)"
  by (simp add: perform_timed_clicks_def perform_timed_clicks_loop.simps cycle_time_def
      late_env_def ideal_env_def)

lemma timed_runs_differ:
  "device_ok ideal_env \<and> device_ok late_env
   \<and> shape (main ideal_env [''mclick'', ''l'', ''-t'', ''300''] (boot 0 0)) =
       Some (Exited 0, [Press 272, Sync, Pause 120, Release 272, Sync, Pause 120,
                        Press 272, Sync, Pause 120, Release 272, Sync, Pause 120])
   \<and> shape (main late_env [''mclick'', ''l'', ''-t'', ''300''] (boot 0 0)) =
       Some (Exited 0, [Press 272, Sync, Pause 120, Release 272, Sync, Pause 120])"
proof -
  let ?a = "[''mclick'', ''l'', ''-t'', ''300'']"
  let ?w2 = "(boot 0 0)\<lparr>trace :=
      [Open 3, Ioctl 3 (UI_SET_EVBIT EV_KEY) True, Ioctl 3 (UI_SET_KEYBIT BTN_LEFT) True,
       Ioctl 3 (UI_SET_KEYBIT BTN_RIGHT) True, WriteDev 3 virtual_mouse True,
       Ioctl 3 UI_DEV_CREATE True]\<rparr>"
  have ok: "device_ok ideal_env" "device_ok late_env"
    by (simp_all add: device_ok_def late_env_def ideal_env_def)
  have fd: "open_fd ideal_env = 3" "open_fd late_env = 3"
    by (simp_all add: late_env_def ideal_env_def)
  have w2: "\<not> debug_mode ?w2" "click_speed_ms (boot 0 0) = 120" "trace (boot 0 0) = []"
    by (simp_all add: boot_def DEFAULT_CLICK_SPEED_MS_def)
  have m1: "main ideal_env ?a (boot 0 0) =
      Some (Exited EXIT_SUCCESS, act (Close 3)
        (timed_cycle ideal_env 3 BTN_LEFT 120 120 (timed_cycle ideal_env 3 BTN_LEFT 120 120 ?w2)))"
    by (simp add: main_def Let_def get_count_time_300 main_loop_time_300 BUTTONS_def
        setup_uinput_device_ok [OF ok(1)] fd DEFAULT_HOLD_MS_def w2
        perform_timed_clicks_300_exact [OF w2(1)] del: get_count.simps)
  have m2: "main late_env ?a (boot 0 0) =
      Some (Exited EXIT_SUCCESS, act (Close 3) (timed_cycle late_env 3 BTN_LEFT 120 120 ?w2))"
    by (simp add: main_def Let_def get_count_time_300 main_loop_time_300 BUTTONS_def
        setup_uinput_device_ok [OF ok(2)] fd DEFAULT_HOLD_MS_def w2
        perform_timed_clicks_300_late [OF w2(1)] del: get_count.simps)
  have s: "steps (trace (timed_cycle e 3 BTN_LEFT 120 120 w)) =
      steps (trace w) @ [Press 272, Sync, Pause 120, Release 272, Sync, Pause 120]" for e w
    by (simp add: timed_cycle_steps click_steps_def BTN_LEFT_def)
  have s2: "steps (trace ?w2) = []"
    by (simp add: steps_def)
  show ?thesis
    unfolding m1 m2 by (simp add: shape_def s s2 ok EXIT_SUCCESS_def)
qed

text \<open>
  C8, as the code has it. Two runs of the program with the same arguments, on devices that
  are both available or both not, started at any two times and whatever writes fail in
  either, end the same way and go through the same steps (the same presses, releases,
  reports and sleeps in the same order, differing in time stamps, descriptors and the
  results of the writes only) when the command line has no time option, or when the
  sleeps of the two runs are late by the same amounts. The bounded loop counts its passes;
  the timed loop reads the clock, so that two timed runs whose sleeps are not equally late
  can make different numbers of passes. If one of two runs that are compared never leaves
  the timed loop, neither does the other.
\<close>

theorem main_shape_deterministic:
  assumes "device_ok e1 \<longleftrightarrow> device_ok e2"
    and "\<not> timed_option argv \<or> lag e1 = lag e2"
  shows "shape (main e1 argv (boot c1 t1)) = shape (main e2 argv (boot c2 t2))"
proof -
  let ?w1 = "boot c1 t1" and ?w2 = "boot c2 t2"
  let ?c = "case argv ! 1 of [] \<Rightarrow> CHR 0x00 | c # x \<Rightarrow> c"
  have b: "trace ?w1 = []" "trace ?w2 = []" "debug_mode ?w1 = debug_mode ?w2"
    "click_speed_ms ?w1 = click_speed_ms ?w2" "nsleeps ?w1 = nsleeps ?w2"
    by (simp_all add: boot_def)
  show ?thesis
  proof (cases "length argv < 2 \<or> argv ! 1 = ''-h'' \<or> argv ! 1 = ''--help''")
    case True
    then show ?thesis
      by (simp add: main_def shape_def print_help_def b)
  next
    case False
    note no_usage = this
    show ?thesis
    proof (cases "BUTTONS ?c")
      case None
      with no_usage show ?thesis
        by (simp add: main_def shape_def b)
    next
      case (Some button)
      note btn = this
      show ?thesis
      proof (cases "get_count argv")
        case (Inl x)
        with no_usage btn show ?thesis
          by (simp add: main_def shape_def b)
      next
        case (Inr count)
        note cnt = this
        obtain r1 v1 where m1: "main_loop argv 2 DEFAULT_HOLD_MS 0 ?w1 = (r1, v1)"
          by (cases "main_loop argv 2 DEFAULT_HOLD_MS 0 ?w1")
        obtain r2 v2 where m2: "main_loop argv 2 DEFAULT_HOLD_MS 0 ?w2 = (r2, v2)"
          by (cases "main_loop argv 2 DEFAULT_HOLD_MS 0 ?w2")
        from main_loop_config [OF b(3,4), of argv 2 DEFAULT_HOLD_MS 0]
        have r: "r1 = r2" and cs: "click_speed_ms v1 = click_speed_ms v2"
          unfolding m1 m2 by simp_all
        from main_loop_nsleeps [of argv 2 DEFAULT_HOLD_MS 0 ?w1]
          main_loop_nsleeps [of argv 2 DEFAULT_HOLD_MS 0 ?w2]
        have ns: "nsleeps v1 = nsleeps v2"
          unfolding m1 m2 using b(5) by simp
        have silent: "steps (trace v) = []"
          if "main_loop argv 2 DEFAULT_HOLD_MS 0 (boot c t) = (r, v)" for c t r v
        proof -
          from main_loop_inv [of "boot c t" argv 2 DEFAULT_HOLD_MS 0]
          have "prefix (trace (boot c t)) (trace v)"
            "list_all is_parse_action (emitted (boot c t) v)"
            unfolding that by simp_all
          then have "trace v = emitted (boot c t) v" "steps (emitted (boot c t) v) = []"
            using prefix_emitted [of "boot c t" v] parse_actions_silent
            by (simp_all add: boot_def)
          then show ?thesis by simp
        qed
        have st: "steps (trace v1) = steps (trace v2)"
          using silent [OF m1] silent [OF m2] by simp
        show ?thesis
        proof (cases r1)
          case (Inl out)
          note m1' = m1 [unfolded Inl]
          note m2' = m2 [unfolded r [symmetric] Inl]
          show ?thesis
            unfolding main_options_reject [OF no_usage btn cnt m1']
              main_options_reject [OF no_usage btn cnt m2']
            by (simp add: shape_def st)
        next
          case (Inr hd)
          obtain h d where hd: "hd = (h, d)" by (cases hd)
          have mode: "\<not> 0 < d \<or> lag e1 = lag e2"
          proof (cases "timed_option argv")
            case True
            with assms(2) show ?thesis by simp
          next
            case False
            have "fst (main_loop argv 2 DEFAULT_HOLD_MS 0 ?w1) = Inr (h, d)"
              unfolding m1 Inr hd by simp
            from main_loop_bounded [OF False _ this] have "d = 0" by simp
            then show ?thesis by simp
          qed
          note a1 = main_after_options [OF no_usage btn cnt m1 [unfolded Inr hd], of e1]
          note a2 = main_after_options [OF no_usage btn cnt m2 [unfolded r [symmetric] Inr hd],
              of e2]
          show ?thesis
            unfolding a1 a2 by (rule device_phase_shape [OF st cs assms(1) ns mode])
        qed
      qed
    qed
  qed
qed

theorem main_shape_deterministic_counterexample:
  "device_ok ideal_env \<and> device_ok late_env
   \<and> shape (main ideal_env [''mclick'', ''l'', ''-t'', ''300''] (boot 0 0)) =
       Some (Exited 0, [Press 272, Sync, Pause 120, Release 272, Sync, Pause 120,
                        Press 272, Sync, Pause 120, Release 272, Sync, Pause 120])
   \<and> shape (main late_env [''mclick'', ''l'', ''-t'', ''300''] (boot 0 0)) =
       Some (Exited 0, [Press 272, Sync, Pause 120, Release 272, Sync, Pause 120])"
  by (rule timed_runs_differ)

theorem main_shape_deterministic_witness:
  "shape (main ideal_env [''mclick'', ''l'', ''2''] (boot 1000 5000)) =
     Some (Exited 0, [Press 272, Sync, Pause 120, Release 272, Sync, Pause 120,
                      Press 272, Sync, Pause 120, Release 272, Sync])"
proof -
  have ok: "device_ok ideal_env \<longleftrightarrow> device_ok first_write_fails"
    by (simp add: device_ok_def first_write_fails_def ideal_env_def)
  have bounded: "\<not> timed_option [''mclick'', ''l'', ''2''] \<or> lag ideal_env = lag first_write_fails"
    by (simp add: timed_option_def)
  note t = main_shape_deterministic [OF ok bounded, of 1000 5000 0 0]
  obtain out w where m: "main first_write_fails [''mclick'', ''l'', ''2''] (boot 0 0) = Some (out, w)"
    using main_first_write_fails by blast
  from first_write_fails_run have "out = Exited 0"
    "steps (trace w) = [Press 272, Sync, Pause 120, Release 272, Sync, Pause 120,
                      Press 272, Sync, Pause 120, Release 272, Sync]"
    unfolding m by simp_all
  then show ?thesis
    unfolding t m by (simp add: shape_def)
qed

end
